theory Spec2Isabelle
  imports Main "HOL-Library.Word" "HOL-Library.List_Lexorder" "HOL-Library.Sublist"
begin

unbundle bit_operations_syntax

section \<open>Bytes, constants and the fixed-width encoding\<close>

text \<open>
  A Go \<^verbatim>\<open>[]byte\<close> is a list of 8-bit words.  The order on byte strings is the one of
  \<^verbatim>\<open>bytes.Compare\<close>: lexicographic on unsigned bytes, a proper prefix being smaller.  This is
  the order of \<open>HOL-Library.List_Lexorder\<close> over the unsigned order of words.  A Go
  \<^verbatim>\<open>uint64\<close> and a Go \<^verbatim>\<open>int64\<close> are both 64-bit words; \<open>sint\<close> and \<open><s\<close> read the second
  as two's complement.
\<close>

type_synonym byte = "8 word"
type_synonym bytes = "byte list"
type_synonym uint64 = "64 word"
type_synonym int64 = "64 word"

definition replyOK :: string where
  "replyOK = ''ok''"

definition replyNotFound :: string where
  "replyNotFound = ''leveldb: not found''"

definition replyError :: string where
  "replyError = ''error''"

definition scoreByteLen :: nat where
  "scoreByteLen = 8"


definition scoreMax :: uint64 where
  "scoreMax = 18446744073709551615"

definition hashPrefix :: bytes where
  "hashPrefix = [30]"

definition zetKeyPrefix :: bytes where
  "zetKeyPrefix = [31]"

definition zetScorePrefix :: bytes where
  "zetScorePrefix = [29]"

definition splitChar :: bytes where
  "splitChar = [28]"

text \<open>\<^verbatim>\<open>bytes.Compare(a, b)\<close>: -1, 0 or 1.\<close>

definition bytes_Compare :: "bytes \<Rightarrow> bytes \<Rightarrow> int" where
  "bytes_Compare a b = (if a < b then - 1 else if a = b then 0 else 1)"

text \<open>\<^verbatim>\<open>Bconcat\<close>: the fragments one after the other.\<close>

definition Bconcat :: "bytes list \<Rightarrow> bytes" where
  "Bconcat slices = concat slices"

text \<open>\<^verbatim>\<open>StringToBytesNoCopy\<close>: the bytes of a Go string.\<close>

definition StringToBytesNoCopy :: "string \<Rightarrow> bytes" where
  "StringToBytesNoCopy s = map of_char s"

text \<open>
  \<^verbatim>\<open>Uint64ToBytes\<close> is \<^verbatim>\<open>binary.BigEndian.PutUint64\<close> on a fresh buffer of 8 bytes:
  \<^verbatim>\<open>b[0] = byte(v >> 56)\<close>, ..., \<^verbatim>\<open>b[7] = byte(v)\<close>.
\<close>

definition Uint64ToBytes :: "uint64 \<Rightarrow> bytes" where
  "Uint64ToBytes v =
     [ucast (drop_bit 56 v), ucast (drop_bit 48 v), ucast (drop_bit 40 v),
      ucast (drop_bit 32 v), ucast (drop_bit 24 v), ucast (drop_bit 16 v),
      ucast (drop_bit 8 v), ucast v]"

text \<open>
  \<^verbatim>\<open>binary.BigEndian.Uint64(b)\<close> reads \<^verbatim>\<open>b[0..7]\<close>; its only caller modelled here,
  \<^verbatim>\<open>BytesToUint64\<close>, passes \<^verbatim>\<open>v[:8]\<close> after checking \<^verbatim>\<open>len(v) >= 8\<close>, so every index is
  in range.
\<close>

definition BigEndian_Uint64 :: "bytes \<Rightarrow> uint64" where
  "BigEndian_Uint64 b =
     ucast (b ! 7) OR push_bit 8 (ucast (b ! 6)) OR push_bit 16 (ucast (b ! 5)) OR
     push_bit 24 (ucast (b ! 4)) OR push_bit 32 (ucast (b ! 3)) OR
     push_bit 40 (ucast (b ! 2)) OR push_bit 48 (ucast (b ! 1)) OR
     push_bit 56 (ucast (b ! 0))"

definition BytesToUint64 :: "bytes \<Rightarrow> uint64" where
  "BytesToUint64 v = (if length v < 8 then 0 else BigEndian_Uint64 (take 8 v))"

text \<open>The number a byte string denotes when read most significant byte first.\<close>

primrec be_nat :: "bytes \<Rightarrow> nat" where
  "be_nat [] = 0"
| "be_nat (b # bs) = unat b * 256 ^ length bs + be_nat bs"

section \<open>The ordered byte-keyed store\<close>

text \<open>
  The store is the external collaborator (goleveldb).  Its contents are an association list
  sorted by key; a point read, a write and an iterator may each fail with a message of the
  store's own, which the model takes from the fields \<open>get_fault\<close>, \<open>write_fault\<close> and
  \<open>iter_fault\<close>.  A fault \<open>(n, msg)\<close> of the iterator means that it stops with \<open>msg\<close> after
  at most \<open>n\<close> entries.
\<close>

datatype error = ErrNotFound | ErrStore string | ErrNew string

text \<open>\<^verbatim>\<open>err.Error()\<close>.\<close>

fun Error :: "error \<Rightarrow> string" where
  "Error ErrNotFound = replyNotFound"
| "Error (ErrStore msg) = msg"
| "Error (ErrNew msg) = msg"

record DB =
  kvs :: "(bytes \<times> bytes) list"
  get_fault :: "(bytes \<times> string) list"
  write_fault :: "string option"
  iter_fault :: "(nat \<times> string) option"

definition ordered_store :: "DB \<Rightarrow> bool" where
  "ordered_store db = sorted_wrt (<) (map fst (kvs db))"

definition Get :: "DB \<Rightarrow> bytes \<Rightarrow> error + bytes" where
  "Get db key =
     (case map_of (get_fault db) key of
        Some msg \<Rightarrow> Inl (ErrStore msg)
      | None \<Rightarrow> (case map_of (kvs db) key of None \<Rightarrow> Inl ErrNotFound | Some val \<Rightarrow> Inr val))"

fun kv_put :: "bytes \<Rightarrow> bytes \<Rightarrow> (bytes \<times> bytes) list \<Rightarrow> (bytes \<times> bytes) list" where
  "kv_put k v [] = [(k, v)]"
| "kv_put k v ((k', v') # rest) =
     (if k < k' then (k, v) # (k', v') # rest
      else if k = k' then (k, v) # rest
      else (k', v') # kv_put k v rest)"

definition kv_delete :: "bytes \<Rightarrow> (bytes \<times> bytes) list \<Rightarrow> (bytes \<times> bytes) list" where
  "kv_delete k s = filter (\<lambda>e. fst e \<noteq> k) s"

text \<open>A \<^verbatim>\<open>leveldb.Batch\<close> is the list of its operations, applied in order and all at once.\<close>

datatype batch_op = BatchPut bytes bytes | BatchDelete bytes

type_synonym Batch = "batch_op list"

fun apply_op :: "(bytes \<times> bytes) list \<Rightarrow> batch_op \<Rightarrow> (bytes \<times> bytes) list" where
  "apply_op s (BatchPut k v) = kv_put k v s"
| "apply_op s (BatchDelete k) = kv_delete k s"

definition Write :: "DB \<Rightarrow> Batch \<Rightarrow> error + DB" where
  "Write db batch =
     (case write_fault db of
        Some msg \<Rightarrow> Inl (ErrStore msg)
      | None \<Rightarrow> Inr (db\<lparr>kvs := foldl apply_op (kvs db) batch\<rparr>))"

definition Put :: "DB \<Rightarrow> bytes \<Rightarrow> bytes \<Rightarrow> error + DB" where
  "Put db key val = Write db [BatchPut key val]"

definition Delete :: "DB \<Rightarrow> bytes \<Rightarrow> error + DB" where
  "Delete db key = Write db [BatchDelete key]"

text \<open>
  \<^verbatim>\<open>util.Range\<close>: \<open>Start\<close> is included, \<open>Limit\<close> is excluded, and a nil \<open>Limit\<close> is no
  bound.  \<^verbatim>\<open>util.BytesPrefix(prefix)\<close> is the range of the keys that begin with \<open>prefix\<close>: its
  limit is the prefix cut after its last byte below \<open>0xff\<close>, that byte incremented.
\<close>

record Range =
  Start :: bytes
  Limit :: "bytes option"

fun BytesPrefix_limit :: "bytes \<Rightarrow> bytes option" where
  "BytesPrefix_limit [] = None"
| "BytesPrefix_limit (c # cs) = (if c < 255 then Some (rev ((c + 1) # cs)) else BytesPrefix_limit cs)"

definition BytesPrefix :: "bytes \<Rightarrow> Range" where
  "BytesPrefix pfx = \<lparr>Start = pfx, Limit = BytesPrefix_limit (rev pfx)\<rparr>"

definition in_range :: "Range \<Rightarrow> bytes \<Rightarrow> bool" where
  "in_range r k = (Start r \<le> k \<and> (case Limit r of None \<Rightarrow> True | Some l \<Rightarrow> k < l))"

text \<open>
  An iterator over a range: the entries of the range in ascending key order, and the fault
  of the store.  \<open>iter_First_Next\<close> is what \<^verbatim>\<open>First/Next\<close> visit, \<open>iter_Last_Prev\<close> what
  \<^verbatim>\<open>Last/Prev\<close> visit, \<open>iter_Error\<close> what \<^verbatim>\<open>iter.Error()\<close> reports once the iterator has stopped
  by itself.
\<close>

record Iterator =
  entries :: "(bytes \<times> bytes) list"
  fault :: "(nat \<times> string) option"

definition NewIterator :: "DB \<Rightarrow> Range \<Rightarrow> Iterator" where
  "NewIterator db r = \<lparr>entries = filter (\<lambda>e. in_range r (fst e)) (kvs db), fault = iter_fault db\<rparr>"

definition iter_First_Next :: "Iterator \<Rightarrow> (bytes \<times> bytes) list" where
  "iter_First_Next it = (case fault it of None \<Rightarrow> entries it | Some (n, msg) \<Rightarrow> take n (entries it))"

definition iter_Last_Prev :: "Iterator \<Rightarrow> (bytes \<times> bytes) list" where
  "iter_Last_Prev it =
     (case fault it of None \<Rightarrow> rev (entries it) | Some (n, msg) \<Rightarrow> take n (rev (entries it)))"

definition iter_Error :: "Iterator \<Rightarrow> error option" where
  "iter_Error it = (case fault it of None \<Rightarrow> None | Some (n, msg) \<Rightarrow> Some (ErrStore msg))"

section \<open>Replies\<close>

record Reply =
  State :: string
  Data :: "bytes list"

record Entry =
  Key :: bytes
  Value :: bytes

definition Reply_OK :: "Reply \<Rightarrow> bool" where
  "Reply_OK r = (State r = replyOK)"


text \<open>
  \<^verbatim>\<open>Reply.List\<close>: the loop over \<^verbatim>\<open>i = 0, 2, ...\<close> while \<^verbatim>\<open>i < len(r.Data) - 1\<close> takes the
  data two at a time and leaves a last odd element out.
\<close>

fun List_loop :: "bytes list \<Rightarrow> Entry list" where
  "List_loop (k # v # rest) = \<lparr>Key = k, Value = v\<rparr> # List_loop rest"
| "List_loop [k] = []"
| "List_loop [] = []"

definition Reply_List :: "Reply \<Rightarrow> Entry list" where
  "Reply_List r = (if length (Data r) < 1 then [] else List_loop (Data r))"

definition KvLen :: "Reply \<Rightarrow> nat" where
  "KvLen r = length (Data r) div 2"

section \<open>The hashmap engine\<close>

definition Hset :: "DB \<Rightarrow> string \<Rightarrow> bytes \<Rightarrow> bytes \<Rightarrow> error + DB" where
  "Hset db name key val =
     (let realKey = Bconcat [hashPrefix, StringToBytesNoCopy name, splitChar, key]
      in Put db realKey val)"

definition Hget :: "DB \<Rightarrow> string \<Rightarrow> bytes \<Rightarrow> Reply" where
  "Hget db name key =
     (let realKey = Bconcat [hashPrefix, StringToBytesNoCopy name, splitChar, key]
      in case Get db realKey of
           Inl err \<Rightarrow> \<lparr>State = Error err, Data = []\<rparr>
         | Inr val \<Rightarrow> \<lparr>State = replyOK, Data = [] @ [val]\<rparr>)"

text \<open>
  The loop of \<^verbatim>\<open>Hmset\<close>: \<^verbatim>\<open>for i := 0; i < len(kvs) - 1; i += 2\<close>.  The index \<open>i + 1\<close> is
  in range whenever the body runs.
\<close>

function Hmset_loop :: "bytes \<Rightarrow> bytes list \<Rightarrow> nat \<Rightarrow> Batch \<Rightarrow> Batch" where
  "Hmset_loop keyPrefix kvl i batch =
     (if int i < int (length kvl) - 1
      then Hmset_loop keyPrefix kvl (i + 2)
             (batch @ [BatchPut (Bconcat [keyPrefix, kvl ! i]) (kvl ! (i + 1))])
      else batch)"
  by pat_completeness auto
termination
  by (relation "measure (\<lambda>(keyPrefix, kvl, i, batch). length kvl - i)") auto

definition Hmset :: "DB \<Rightarrow> string \<Rightarrow> bytes list \<Rightarrow> error + DB" where
  "Hmset db name kvl =
     (if length kvl = 0 \<or> length kvl mod 2 \<noteq> 0
      then Inl (ErrNew ''kvs len must is an even number'')
      else let keyPrefix = Bconcat [hashPrefix, StringToBytesNoCopy name, splitChar]
           in Write db (Hmset_loop keyPrefix kvl 0 []))"

fun Hmget_loop :: "DB \<Rightarrow> bytes \<Rightarrow> bytes list \<Rightarrow> bytes list \<Rightarrow> bytes list" where
  "Hmget_loop db keyPrefix [] data = data"
| "Hmget_loop db keyPrefix (key # keys) data =
     (case Get db (Bconcat [keyPrefix, key]) of
        Inl err \<Rightarrow> Hmget_loop db keyPrefix keys data
      | Inr val \<Rightarrow> Hmget_loop db keyPrefix keys (data @ [key, val]))"

definition Hmget :: "DB \<Rightarrow> string \<Rightarrow> bytes list \<Rightarrow> Reply" where
  "Hmget db name keys =
     (let keyPrefix = Bconcat [hashPrefix, StringToBytesNoCopy name, splitChar];
          data = Hmget_loop db keyPrefix keys []
      in \<lparr>State = (if length data > 0 then replyOK else replyError), Data = data\<rparr>)"

text \<open>
  \<^verbatim>\<open>Hincr\<close> returns \<^verbatim>\<open>(newNum, err)\<close>; the model returns the error, or the new number with the
  store after the write.  \<^verbatim>\<open>uint64(step)\<close> and \<^verbatim>\<open>uint64(-step)\<close> keep the 64 bits.
\<close>

definition Hincr :: "DB \<Rightarrow> string \<Rightarrow> bytes \<Rightarrow> int64 \<Rightarrow> error + (uint64 \<times> DB)" where
  "Hincr db name key step =
     (let realKey = Bconcat [hashPrefix, StringToBytesNoCopy name, splitChar, key];
          oldNum = (case Get db realKey of Inr val \<Rightarrow> BytesToUint64 val | Inl err \<Rightarrow> 0)
      in if 0 <s step then
           (if scoreMax - step < oldNum then Inl (ErrNew ''overflow number'')
            else let newNum = oldNum + step
                 in case Put db realKey (Uint64ToBytes newNum) of
                      Inl err \<Rightarrow> Inl err
                    | Inr db' \<Rightarrow> Inr (newNum, db'))
         else
           (if - step > oldNum then Inl (ErrNew ''overflow number'')
            else let newNum = oldNum - (- step)
                 in case Put db realKey (Uint64ToBytes newNum) of
                      Inl err \<Rightarrow> Inl err
                    | Inr db' \<Rightarrow> Inr (newNum, db')))"

definition HgetInt :: "DB \<Rightarrow> string \<Rightarrow> bytes \<Rightarrow> uint64" where
  "HgetInt db name key =
     (let realKey = Bconcat [hashPrefix, StringToBytesNoCopy name, splitChar, key]
      in case Get db realKey of Inl err \<Rightarrow> 0 | Inr val \<Rightarrow> BytesToUint64 val)"

text \<open>
  The loop shared by the five scans: for each entry the iterator visits, if the entry is
  beyond the start position (\<open>sel\<close>), append the pair cut out of it (\<open>ext\<close>), count it, and
  stop when the count equals \<open>limit\<close>.  \<open>ext\<close> is \<open>None\<close> where the slice expression of the
  source is out of range, which panics: then the scan returns no reply.  The result is the
  count, the data, and whether the iterator stopped by itself (\<open>True\<close>) or the loop left it
  by \<^verbatim>\<open>break\<close>.
\<close>

fun scan_loop ::
  "(bytes \<Rightarrow> bool) \<Rightarrow> (bytes \<Rightarrow> bytes \<Rightarrow> bytes list option) \<Rightarrow> int \<Rightarrow>
   (bytes \<times> bytes) list \<Rightarrow> int \<Rightarrow> bytes list \<Rightarrow> (int \<times> bytes list \<times> bool) option" where
  "scan_loop sel ext limit [] n data = Some (n, data, True)"
| "scan_loop sel ext limit ((k, v) # rest) n data =
     (if sel k then
        (case ext k v of
           None \<Rightarrow> None
         | Some pair \<Rightarrow>
             (if n + 1 = limit then Some (n + 1, data @ pair, False)
              else scan_loop sel ext limit rest (n + 1) (data @ pair)))
      else scan_loop sel ext limit rest n data)"

text \<open>
  The end of every scan: \<^verbatim>\<open>iter.Error()\<close> replaces the state and empties the data; otherwise
  the state is \<open>ok\<close> when \<open>n > 0\<close>.
\<close>

definition scan_reply :: "Iterator \<Rightarrow> (int \<times> bytes list \<times> bool) \<Rightarrow> Reply" where
  "scan_reply it res =
     (case res of (n, data, stopped) \<Rightarrow>
        (case (if stopped then iter_Error it else None) of
           Some err \<Rightarrow> \<lparr>State = Error err, Data = []\<rparr>
         | None \<Rightarrow> \<lparr>State = (if n > 0 then replyOK else replyError), Data = data\<rparr>))"

text \<open>\<^verbatim>\<open>key[i:]\<close>, which panics when \<open>i > len(key)\<close>.\<close>

definition slice_from :: "bytes \<Rightarrow> nat \<Rightarrow> bytes option" where
  "slice_from key i = (if i \<le> length key then Some (drop i key) else None)"

definition Hscan :: "DB \<Rightarrow> string \<Rightarrow> bytes \<Rightarrow> int \<Rightarrow> Reply option" where
  "Hscan db name keyStart limit =
     (let keyPrefix = Bconcat [hashPrefix, StringToBytesNoCopy name, splitChar];
          realKey0 = Bconcat [keyPrefix, keyStart];
          keyPrefixLen = length keyPrefix;
          sliceRange0 = BytesPrefix keyPrefix;
          sliceRange = (if length realKey0 > keyPrefixLen then sliceRange0\<lparr>Start := realKey0\<rparr>
                        else sliceRange0);
          realKey = (if length realKey0 > keyPrefixLen then realKey0 else Start sliceRange0);
          iter = NewIterator db sliceRange
      in map_option (scan_reply iter)
           (scan_loop (\<lambda>k. bytes_Compare realKey k = - 1)
              (\<lambda>k v. map_option (\<lambda>m. [m, v]) (slice_from k keyPrefixLen))
              limit (iter_First_Next iter) 0 []))"

definition Hprefix :: "DB \<Rightarrow> string \<Rightarrow> bytes \<Rightarrow> int \<Rightarrow> Reply option" where
  "Hprefix db name pfx limit =
     (let realKey0 = Bconcat [hashPrefix, StringToBytesNoCopy name, splitChar, pfx];
          keyPrefixLen = length realKey0;
          sliceRange0 = BytesPrefix realKey0;
          sliceRange = (if length realKey0 > keyPrefixLen then sliceRange0\<lparr>Start := realKey0\<rparr>
                        else sliceRange0);
          realKey = (if length realKey0 > keyPrefixLen then realKey0 else Start sliceRange0);
          iter = NewIterator db sliceRange
      in map_option (scan_reply iter)
           (scan_loop (\<lambda>k. bytes_Compare realKey k = - 1)
              (\<lambda>k v. map_option (\<lambda>m. [m, v]) (slice_from k keyPrefixLen))
              limit (iter_First_Next iter) 0 []))"

text \<open>
  In \<^verbatim>\<open>Hrscan\<close> the limit of the prefix range is never nil, since the prefix ends with the
  separator; \<open>realKey\<close> is not read after it is set.
\<close>

definition Hrscan :: "DB \<Rightarrow> string \<Rightarrow> bytes \<Rightarrow> int \<Rightarrow> Reply option" where
  "Hrscan db name keyStart limit =
     (let keyPrefix = Bconcat [hashPrefix, StringToBytesNoCopy name, splitChar];
          realKey0 = Bconcat [keyPrefix, keyStart];
          keyPrefixLen = length keyPrefix;
          sliceRange0 = BytesPrefix keyPrefix;
          sliceRange = (if length realKey0 > keyPrefixLen then sliceRange0\<lparr>Limit := Some realKey0\<rparr>
                        else sliceRange0);
          iter = NewIterator db sliceRange
      in map_option (scan_reply iter)
           (scan_loop (\<lambda>k. True)
              (\<lambda>k v. map_option (\<lambda>m. [m, v]) (slice_from k keyPrefixLen))
              limit (iter_Last_Prev iter) 0 []))"

section \<open>The sorted-set engine\<close>

text \<open>
  \<^verbatim>\<open>oldScore, _ := db.Get(keyScore, nil)\<close>: the value, or nil (no bytes) when the read fails.
\<close>

definition Get_or_nil :: "DB \<Rightarrow> bytes \<Rightarrow> bytes" where
  "Get_or_nil db key = (case Get db key of Inl err \<Rightarrow> [] | Inr val \<Rightarrow> val)"

definition Zset :: "DB \<Rightarrow> string \<Rightarrow> bytes \<Rightarrow> uint64 \<Rightarrow> error + DB" where
  "Zset db name key val =
     (let nameB = StringToBytesNoCopy name;
          score = Uint64ToBytes val;
          keyScore = Bconcat [zetScorePrefix, nameB, splitChar, key];
          newScoreKey = Bconcat [zetKeyPrefix, nameB, splitChar, score, splitChar, key];
          oldScore = Get_or_nil db keyScore
      in if oldScore \<noteq> score
         then Write db
                [BatchPut keyScore score,
                 BatchPut newScoreKey [],
                 BatchDelete (Bconcat [zetKeyPrefix, nameB, splitChar, oldScore, splitChar, key])]
         else Inr db)"

definition Zget :: "DB \<Rightarrow> string \<Rightarrow> bytes \<Rightarrow> uint64" where
  "Zget db name key =
     (case Get db (Bconcat [zetScorePrefix, StringToBytesNoCopy name, splitChar, key]) of
        Inl err \<Rightarrow> 0
      | Inr val \<Rightarrow> BytesToUint64 val)"

definition Zincr_write :: "DB \<Rightarrow> bytes \<Rightarrow> bytes \<Rightarrow> bytes \<Rightarrow> bytes \<Rightarrow> uint64 \<Rightarrow> error + (uint64 \<times> DB)" where
  "Zincr_write db nameB key keyScore oldScoreB score =
     (let newScoreB = Uint64ToBytes score
      in case Write db
                [BatchPut keyScore newScoreB,
                 BatchPut (Bconcat [zetKeyPrefix, nameB, splitChar, newScoreB, splitChar, key]) [],
                 BatchDelete (Bconcat [zetKeyPrefix, nameB, splitChar, oldScoreB, splitChar, key])] of
           Inl err \<Rightarrow> Inl err
         | Inr db' \<Rightarrow> Inr (score, db'))"

definition Zincr :: "DB \<Rightarrow> string \<Rightarrow> bytes \<Rightarrow> int64 \<Rightarrow> error + (uint64 \<times> DB)" where
  "Zincr db name key step =
     (let nameB = StringToBytesNoCopy name;
          keyScore = Bconcat [zetScorePrefix, nameB, splitChar, key];
          score = Zget db name key;
          oldScoreB = Uint64ToBytes score
      in if 0 <s step then
           (if scoreMax - step < score then Inl (ErrNew ''overflow number'')
            else Zincr_write db nameB key keyScore oldScoreB (score + step))
         else
           (if - step > score then Inl (ErrNew ''overflow number'')
            else Zincr_write db nameB key keyScore oldScoreB (score - (- step))))"

definition Zdel :: "DB \<Rightarrow> string \<Rightarrow> bytes \<Rightarrow> error + DB" where
  "Zdel db name key =
     (let nameB = StringToBytesNoCopy name;
          keyScore = Bconcat [zetScorePrefix, nameB, splitChar, key]
      in case Get db keyScore of
           Inl err \<Rightarrow> Inl err
         | Inr oldScore \<Rightarrow>
             Write db
               [BatchDelete keyScore,
                BatchDelete (Bconcat [zetKeyPrefix, nameB, splitChar, oldScore, splitChar, key])])"

text \<open>
  The loop of \<^verbatim>\<open>Zmset\<close>.  Every old score is read from the store \<open>db\<close>, not from the batch
  under construction.
\<close>

function Zmset_loop :: "DB \<Rightarrow> bytes \<Rightarrow> bytes \<Rightarrow> bytes list \<Rightarrow> nat \<Rightarrow> Batch \<Rightarrow> Batch" where
  "Zmset_loop db keyPrefix1 keyPrefix2 kvl i batch =
     (if int i < int (length kvl) - 1
      then
        (let key = kvl ! i;
             score = kvl ! (i + 1);
             keyScore = Bconcat [keyPrefix1, key];
             newScoreKey = Bconcat [keyPrefix2, score, splitChar, key];
             oldScore = Get_or_nil db keyScore
         in Zmset_loop db keyPrefix1 keyPrefix2 kvl (i + 2)
              (if oldScore \<noteq> score
               then batch @
                      [BatchPut keyScore score,
                       BatchPut newScoreKey [],
                       BatchDelete (Bconcat [keyPrefix2, oldScore, splitChar, key])]
               else batch))
      else batch)"
  by pat_completeness auto
termination
  by (relation "measure (\<lambda>(db, keyPrefix1, keyPrefix2, kvl, i, batch). length kvl - i)") auto

definition Zmset :: "DB \<Rightarrow> string \<Rightarrow> bytes list \<Rightarrow> error + DB" where
  "Zmset db name kvl =
     (if length kvl = 0 \<or> length kvl mod 2 \<noteq> 0
      then Inl (ErrNew ''kvs len must is an even number'')
      else let nameB = StringToBytesNoCopy name;
               keyPrefix1 = Bconcat [zetScorePrefix, nameB, splitChar];
               keyPrefix2 = Bconcat [zetKeyPrefix, nameB, splitChar]
           in Write db (Zmset_loop db keyPrefix1 keyPrefix2 kvl 0 []))"


fun Zmdel_loop :: "DB \<Rightarrow> bytes \<Rightarrow> bytes \<Rightarrow> bytes list \<Rightarrow> Batch \<Rightarrow> Batch" where
  "Zmdel_loop db keyPrefix keyPrefix2 [] batch = batch"
| "Zmdel_loop db keyPrefix keyPrefix2 (key # keys) batch =
     (let keyScore = Bconcat [keyPrefix, key]
      in case Get db keyScore of
           Inl err \<Rightarrow> Zmdel_loop db keyPrefix keyPrefix2 keys batch
         | Inr oldScore \<Rightarrow>
             Zmdel_loop db keyPrefix keyPrefix2 keys
               (batch @ [BatchDelete keyScore,
                         BatchDelete (Bconcat [keyPrefix2, oldScore, splitChar, key])]))"

definition Zmdel :: "DB \<Rightarrow> string \<Rightarrow> bytes list \<Rightarrow> error + DB" where
  "Zmdel db name keys =
     (let nameB = StringToBytesNoCopy name;
          keyPrefix = Bconcat [zetScorePrefix, nameB, splitChar];
          keyPrefix2 = Bconcat [zetKeyPrefix, nameB, splitChar]
      in Write db (Zmdel_loop db keyPrefix keyPrefix2 keys []))"




section \<open>Notions used to state the properties\<close>

text \<open>A store without faults that holds the given entries.\<close>

definition store_of :: "(bytes \<times> bytes) list \<Rightarrow> DB" where
  "store_of s = \<lparr>kvs = s, get_fault = [], write_fault = None, iter_fault = None\<rparr>"

text \<open>A flattened pair list read two at a time.\<close>

fun pairs_of :: "'a list \<Rightarrow> ('a \<times> 'a) list" where
  "pairs_of (k # v # rest) = (k, v) # pairs_of rest"
| "pairs_of [k] = []"
| "pairs_of [] = []"

text \<open>
  The scores of the order-index entries the store holds for a member of a sorted set: the
  keys \<open>zetKeyPrefix name splitChar score splitChar member\<close> with a score of 8 bytes.  The
  two indices agree on a member when the order index holds exactly the score of the direct
  index, and nothing when the direct index has no score.
\<close>

definition order_scores :: "DB \<Rightarrow> string \<Rightarrow> bytes \<Rightarrow> bytes list" where
  "order_scores db name member =
     (let keyPrefix = Bconcat [zetKeyPrefix, StringToBytesNoCopy name, splitChar]
      in map (\<lambda>e. take scoreByteLen (drop (length keyPrefix) (fst e)))
           (filter (\<lambda>e. take (length keyPrefix) (fst e) = keyPrefix \<and>
                        drop (length keyPrefix + scoreByteLen) (fst e) = splitChar @ member)
              (kvs db)))"

definition zset_consistent :: "DB \<Rightarrow> string \<Rightarrow> bytes \<Rightarrow> bool" where
  "zset_consistent db name member =
     (case map_of (kvs db) (Bconcat [zetScorePrefix, StringToBytesNoCopy name, splitChar, member]) of
        None \<Rightarrow> order_scores db name member = []
      | Some s \<Rightarrow> order_scores db name member = [s])"

text \<open>
  A key below the limit of a range; the entries a scan with a limit collects from the
  entries beyond its start position, when it has counted \<open>n\<close> already; and the same from a
  count of 0: the first \<open>limit\<close> of them when \<open>limit\<close> is positive, all of them otherwise,
  since the count never equals a limit below 1.
\<close>

definition below :: "bytes option \<Rightarrow> bytes \<Rightarrow> bool" where
  "below l k = (case l of None \<Rightarrow> True | Some b \<Rightarrow> k < b)"

definition hits :: "int \<Rightarrow> int \<Rightarrow> 'a list \<Rightarrow> 'a list" where
  "hits limit n xs = (if n < limit then take (nat (limit - n)) xs else xs)"

definition take_limit :: "int \<Rightarrow> 'a list \<Rightarrow> 'a list" where
  "take_limit limit xs = (if 0 < limit then take (nat limit) xs else xs)"

text \<open>
  What a scan replies when it collects the entries \<open>H\<close> from the candidates \<open>F\<close>: \<open>H\<close> is an
  initial part of \<open>F\<close>, the whole \<open>take_limit\<close> of it unless the iterator fails; the data are
  the pairs of \<open>H\<close>; the state is \<open>ok\<close> when there is a pair, and else \<open>error\<close> or the message
  of the iterator.
\<close>

definition reply_of_hits ::
  "DB \<Rightarrow> int \<Rightarrow> (bytes \<times> bytes) list \<Rightarrow> (bytes \<times> bytes \<Rightarrow> bytes list) \<Rightarrow>
   (bytes \<times> bytes) list \<Rightarrow> Reply \<Rightarrow> bool" where
  "reply_of_hits db limit F pr H r =
     (prefix H F \<and>
      (0 < limit \<longrightarrow> length H \<le> nat limit) \<and>
      (iter_fault db = None \<longrightarrow> H = take_limit limit F) \<and>
      Data r = concat (map pr H) \<and>
      (H \<noteq> [] \<longrightarrow> State r = replyOK) \<and>
      (H = [] \<longrightarrow> State r = replyError \<or> (\<exists>n msg. iter_fault db = Some (n, msg) \<and> State r = msg)))"


declare Hmset_loop.simps [simp del]

declare Zmset_loop.simps [simp del]

section \<open>The fixed-width encoding\<close>

lemma length_Uint64ToBytes: "length (Uint64ToBytes v) = 8"
  by (simp add: Uint64ToBytes_def)

lemma BigEndian_Uint64_Uint64ToBytes: "BigEndian_Uint64 (Uint64ToBytes v) = v"
proof (rule bit_word_eqI)
  fix n
  assume n: "n < LENGTH(64)"
  show "bit (BigEndian_Uint64 (Uint64ToBytes v)) n = bit v n"
  proof (cases "bit v n")
    case True
    with n show ?thesis
      unfolding Uint64ToBytes_def BigEndian_Uint64_def
      by (simp add: bit_simps less_diff_conv2 cong: conj_cong) arith
  next
    case False
    with n show ?thesis
      unfolding Uint64ToBytes_def BigEndian_Uint64_def
      by (simp add: bit_simps cong: conj_cong)
  qed
qed

lemma BytesToUint64_Uint64ToBytes: "BytesToUint64 (Uint64ToBytes v) = v"
  by (simp add: BytesToUint64_def length_Uint64ToBytes BigEndian_Uint64_Uint64ToBytes)

lemma unat_low_byte:
  "unat (drop_bit k (v :: uint64)) =
     unat (drop_bit (k + 8) v) * 256 + unat (ucast (drop_bit k v) :: byte)"
proof -
  have "drop_bit (k + 8) v = drop_bit 8 (drop_bit k v)"
    by (simp add: add.commute)
  then show ?thesis
    by (simp add: unat_drop_bit_eq unsigned_ucast_eq unsigned_take_bit_eq take_bit_eq_mod
        drop_bit_eq_div unat_div unat_mod)
qed

lemma be_nat_Uint64ToBytes: "be_nat (Uint64ToBytes v) = unat v"
proof -
  have z: "unat (drop_bit 64 v) = 0"
    by (simp add: drop_bit_word_beyond)
  have "unat v = unat (drop_bit 0 v)"
    by simp
  also have "\<dots> = unat (drop_bit 8 v) * 256 + unat (ucast v :: byte)"
    using unat_low_byte [of 0 v] by simp
  finally have e: "unat v = unat (drop_bit 8 v) * 256 + unat (ucast v :: byte)" .
  show ?thesis
    unfolding Uint64ToBytes_def
    using e unat_low_byte [of 8 v] unat_low_byte [of 16 v] unat_low_byte [of 24 v]
      unat_low_byte [of 32 v] unat_low_byte [of 40 v] unat_low_byte [of 48 v]
      unat_low_byte [of 56 v] z
    by simp
qed

lemma be_nat_less: "be_nat bs < 256 ^ length bs"
proof (induction bs)
  case Nil
  show ?case by simp
next
  case (Cons b bs)
  have "unat b < 256"
    using unsigned_less [of b] by simp
  then have "unat b + 1 \<le> 256"
    by simp
  then have le: "(unat b + 1) * 256 ^ length bs \<le> 256 * 256 ^ length bs"
    by (rule mult_le_mono1)
  have lt: "unat b * 256 ^ length bs + be_nat bs < (unat b + 1) * 256 ^ length bs"
    using Cons.IH by simp
  from lt le have "unat b * 256 ^ length bs + be_nat bs < 256 * 256 ^ length bs"
    by (rule less_le_trans)
  then show ?case by simp
qed

text \<open>On byte strings of one length, the order of the bytes is the order of the numbers.\<close>

lemma be_nat_mono: "length xs = length ys \<Longrightarrow> (xs < ys) = (be_nat xs < be_nat ys)"
proof (induction xs ys rule: list_induct2)
  case Nil
  show ?case by simp
next
  case (Cons a xs b ys)
  let ?B = "256 ^ length ys :: nat"
  have bx: "be_nat xs < ?B"
    using be_nat_less [of xs] Cons.hyps by simp
  have bnd: "be_nat ys < ?B"
    by (rule be_nat_less)
  show ?case
  proof (cases "a < b")
    case True
    then have "unat a + 1 \<le> unat b"
      by (simp add: word_less_nat_alt)
    then have "(unat a + 1) * ?B \<le> unat b * ?B"
      by (rule mult_le_mono1)
    with bx True Cons.hyps show ?thesis by simp
  next
    case False
    show ?thesis
    proof (cases "a = b")
      case True
      with Cons show ?thesis by simp
    next
      case ne: False
      with False have "b < a"
        by simp
      then have "unat b + 1 \<le> unat a"
        by (simp add: word_less_nat_alt)
      then have "(unat b + 1) * ?B \<le> unat a * ?B"
        by (rule mult_le_mono1)
      with bnd False ne Cons.hyps show ?thesis by simp
    qed
  qed
qed

lemma Uint64ToBytes_less: "(Uint64ToBytes a < Uint64ToBytes b) = (a < b)"
proof -
  have "length (Uint64ToBytes a) = length (Uint64ToBytes b)"
    by (simp add: length_Uint64ToBytes)
  then show ?thesis
    by (simp only: be_nat_mono be_nat_Uint64ToBytes word_less_nat_alt)
qed

lemma Uint64ToBytes_inject: "(Uint64ToBytes a = Uint64ToBytes b) = (a = b)"
  by (metis BytesToUint64_Uint64ToBytes)

text \<open>
  Claim C8.  Decoding an encoded 64-bit unsigned integer gives the integer back; the
  encoding has exactly 8 bytes, most significant byte first (read as a base-256 numeral it
  is the integer); and comparing two encodings as byte strings, with \<^verbatim>\<open>bytes.Compare\<close>, is
  comparing the integers.
\<close>

theorem Uint64_encoding_roundtrip_and_order:
  "BytesToUint64 (Uint64ToBytes v) = v \<and>
   length (Uint64ToBytes v) = 8 \<and>
   be_nat (Uint64ToBytes v) = unat v \<and>
   bytes_Compare (Uint64ToBytes a) (Uint64ToBytes b) =
     (if a < b then - 1 else if a = b then 0 else 1)"
  by (simp add: BytesToUint64_Uint64ToBytes length_Uint64ToBytes be_nat_Uint64ToBytes
      bytes_Compare_def Uint64ToBytes_less Uint64ToBytes_inject)

theorem Uint64_encoding_roundtrip_and_order_witness:
  "BytesToUint64 (Uint64ToBytes 258) = 258 \<and>
   Uint64ToBytes 258 = [0, 0, 0, 0, 0, 0, 1, 2] \<and>
   bytes_Compare (Uint64ToBytes 258) (Uint64ToBytes 513) = - 1"
  using Uint64_encoding_roundtrip_and_order [of 258 258 513]
  by (simp add: Uint64ToBytes_def)

section \<open>The hashmap counter\<close>

lemma uint_of_sint:
  "uint (s :: 64 word) = (if 0 \<le> sint s then sint s else sint s + 2 ^ 64)"
proof -
  have u: "uint s = sint s mod 2 ^ 64"
    using uint_sint [of s] by (simp add: take_bit_eq_mod)
  have lo: "- (2 ^ 63) \<le> sint s" using sint_ge [of s] by simp
  have hi: "sint s < 2 ^ 63" using sint_lt [of s] by simp
  show ?thesis
  proof (cases "0 \<le> sint s")
    case True
    with hi have "sint s mod 2 ^ 64 = sint s" by (simp add: mod_pos_pos_trivial)
    with u True show ?thesis by simp
  next
    case False
    have "(sint s + 2 ^ 64) mod 2 ^ 64 = sint s + 2 ^ 64"
      using lo False by (intro mod_pos_pos_trivial) simp_all
    moreover have "(sint s + 2 ^ 64) mod 2 ^ 64 = sint s mod 2 ^ 64"
      by (rule mod_add_self2)
    ultimately show ?thesis using u False by simp
  qed
qed

lemma scoreMax_uint: "uint scoreMax = 2 ^ 64 - 1" by (simp add: scoreMax_def)

lemma add_overflow_check:
  assumes "0 < sint (step :: 64 word)"
  shows "(scoreMax - step < oldNum) = (uint oldNum + sint step > 2 ^ 64 - 1)"
proof -
  have us: "uint step = sint step" using assms by (simp add: uint_of_sint)
  have "uint step \<le> uint scoreMax" using uint_lt2p [of step] by (simp add: scoreMax_uint)
  then have "uint (scoreMax - step) = uint scoreMax - uint step"
    by (simp add: uint_sub_if')
  then show ?thesis using us by (simp add: word_less_alt scoreMax_uint) arith
qed

lemma sub_underflow_check:
  assumes "\<not> 0 < sint (step :: 64 word)"
  shows "(- step > oldNum) = (\<bar>sint step\<bar> > uint oldNum)"
proof -
  have "uint (- step) = - sint step"
  proof (cases "step = 0")
    case True then show ?thesis by simp
  next
    case False
    then have "uint step \<noteq> 0" by (simp add: uint_0_iff)
    moreover have "0 \<le> uint step" by simp
    ultimately have p: "0 < uint step" by linarith
    have "sint step \<noteq> 0" using False by (metis signed_eq_0_iff)
    with assms have n: "sint step < 0" by simp
    have "uint (- step) = uint (0 - step)" by simp
    also have "\<dots> = 2 ^ 64 - uint step" using p uint_sub_if' [of 0 step] by simp
    finally show ?thesis using n by (simp add: uint_of_sint)
  qed
  then show ?thesis using assms by (simp add: word_less_alt)
qed

lemma Hincr_no_wrap:
  assumes "\<not> ((0 < sint step \<and> uint cur + sint step > 2 ^ 64 - 1) \<or>
            (sint step \<le> 0 \<and> \<bar>sint step\<bar> > uint cur))"
  shows "uint ((cur :: 64 word) + (step :: 64 word)) = uint cur + sint step"
proof -
  have lo: "0 \<le> uint cur + sint step"
    using assms by (cases "0 < sint step") auto
  have hi: "uint cur + sint step < 2 ^ 64"
    using assms uint_lt2p [of cur] by (cases "0 < sint step") auto
  have "uint (cur + step) = (uint cur + uint step) mod 2 ^ 64"
    by (simp add: uint_word_ariths)
  also have "\<dots> = (uint cur + sint step) mod 2 ^ 64"
  proof (cases "0 \<le> sint step")
    case True
    then show ?thesis by (simp add: uint_of_sint)
  next
    case False
    then have "uint cur + uint step = (uint cur + sint step) + 2 ^ 64"
      by (simp add: uint_of_sint)
    then show ?thesis by (simp only: mod_add_self2)
  qed
  also have "\<dots> = uint cur + sint step"
    using lo hi by (rule mod_pos_pos_trivial)
  finally show ?thesis .
qed

lemma map_of_kv_put: "map_of (kv_put k v s) k = Some v"
  by (induction s) auto

text \<open>
  Claim C4.  \<^verbatim>\<open>Hincr\<close> takes a counter that is missing, unreadable or shorter than 8 bytes
  as 0.  It fails with the overflow error, and returns no new store, exactly when the step is
  positive and the sum exceeds \<open>2^64 - 1\<close>, or the step is not positive and its absolute
  value exceeds the counter.  Otherwise it puts the 8 bytes of the sum under the key and
  returns the sum with the store written (or the error of the store's write); the number
  returned is the counter plus the step, without wrap-around, and is what the store holds
  under the key afterwards.
\<close>

theorem Hincr_overflow_or_sum:
  "Hincr db name key step =
     (let realKey = Bconcat [hashPrefix, StringToBytesNoCopy name, splitChar, key];
          cur = (case Get db realKey of Inl err \<Rightarrow> 0 | Inr val \<Rightarrow> BytesToUint64 val)
      in if (0 < sint step \<and> 2 ^ 64 - 1 < uint cur + sint step) \<or>
            (sint step \<le> 0 \<and> uint cur < \<bar>sint step\<bar>)
         then Inl (ErrNew ''overflow number'')
         else (case Put db realKey (Uint64ToBytes (cur + step)) of
                 Inl err \<Rightarrow> Inl err
               | Inr db' \<Rightarrow> Inr (cur + step, db'))) \<and>
   (\<forall>n db'. Hincr db name key step = Inr (n, db') \<longrightarrow>
      uint n = uint (HgetInt db name key) + sint step \<and>
      map_of (kvs db') (Bconcat [hashPrefix, StringToBytesNoCopy name, splitChar, key]) =
        Some (Uint64ToBytes n))"
proof -
  define realKey where "realKey = Bconcat [hashPrefix, StringToBytesNoCopy name, splitChar, key]"
  define c where "c = (case Get db realKey of Inl err \<Rightarrow> 0 | Inr val \<Rightarrow> BytesToUint64 val)"
  define over where "over =
    ((0 < sint step \<and> 2 ^ 64 - 1 < uint c + sint step) \<or> (sint step \<le> 0 \<and> uint c < \<bar>sint step\<bar>))"
  define w where "w = Put db realKey (Uint64ToBytes (c + step))"
  have old: "(case Get db realKey of Inr val \<Rightarrow> BytesToUint64 val | Inl err \<Rightarrow> 0) = c"
    by (simp add: c_def split: sum.splits)
  have unf: "Hincr db name key step =
      (if 0 <s step then
         (if scoreMax - step < c then Inl (ErrNew ''overflow number'')
          else case w of Inl err \<Rightarrow> Inl err | Inr db' \<Rightarrow> Inr (c + step, db'))
       else
         (if - step > c then Inl (ErrNew ''overflow number'')
          else case w of Inl err \<Rightarrow> Inl err | Inr db' \<Rightarrow> Inr (c + step, db')))"
    unfolding Hincr_def Let_def realKey_def [symmetric] old diff_minus_eq_add w_def by simp
  have eq: "Hincr db name key step =
      (if over then Inl (ErrNew ''overflow number'')
       else (case w of Inl err \<Rightarrow> Inl err | Inr db' \<Rightarrow> Inr (c + step, db')))"
  proof (cases "0 < sint step")
    case True
    then show ?thesis
      unfolding unf over_def by (simp add: word_sless_alt add_overflow_check)
  next
    case False
    then show ?thesis
      unfolding unf over_def by (simp add: word_sless_alt sub_underflow_check)
  qed
  have cur: "HgetInt db name key = c"
    unfolding HgetInt_def Let_def realKey_def [symmetric] c_def by simp
  have res: "uint n = uint (HgetInt db name key) + sint step \<and>
      map_of (kvs db') realKey = Some (Uint64ToBytes n)"
    if r: "Hincr db name key step = Inr (n, db')" for n db'
  proof -
    from r eq have no: "\<not> over"
      by (cases over) simp_all
    with r eq have "(case w of Inl err \<Rightarrow> Inl err | Inr db2 \<Rightarrow> Inr (c + step, db2)) = Inr (n, db')"
      by simp
    then have p: "w = Inr db'" and n: "n = c + step"
      by (cases w; simp)+
    from no [unfolded over_def] have nw: "uint (c + step) = uint c + sint step"
      by (rule Hincr_no_wrap)
    from p have m: "map_of (kvs db') realKey = Some (Uint64ToBytes (c + step))"
      unfolding w_def by (auto simp add: Put_def Write_def map_of_kv_put split: option.splits)
    from nw m show ?thesis
      by (simp only: n cur simp_thms)
  qed
  show ?thesis
    unfolding Let_def realKey_def [symmetric] c_def [symmetric] over_def [symmetric]
      w_def [symmetric]
    using eq res by simp
qed

theorem Hincr_overflow_or_sum_witness:
  "Hincr (store_of []) ''counter'' [99, 110, 116] (- 1) = Inl (ErrNew ''overflow number'') \<and>
   Hincr (store_of [([30, 99, 28, 107], Uint64ToBytes 18446744073709551614)]) ''c'' [107] 2 =
     Inl (ErrNew ''overflow number'') \<and>
   Hincr (store_of [([30, 99, 28, 107], Uint64ToBytes 5)]) ''c'' [107] (- 2) =
     Inr (3, store_of [([30, 99, 28, 107], Uint64ToBytes 3)])"
  using Hincr_overflow_or_sum [of "store_of []" "''counter''" "[99, 110, 116]" "- 1"]
    Hincr_overflow_or_sum
      [of "store_of [([30, 99, 28, 107], Uint64ToBytes 18446744073709551614)]" "''c''" "[107]" 2]
    Hincr_overflow_or_sum [of "store_of [([30, 99, 28, 107], Uint64ToBytes 5)]" "''c''" "[107]" "- 2"]
  by (simp add: store_of_def Get_def Put_def Write_def Let_def Bconcat_def hashPrefix_def
      splitChar_def StringToBytesNoCopy_def BytesToUint64_Uint64ToBytes)

section \<open>Multi-get and multi-set of the hashmap\<close>

lemma Hmget_loop_eq:
  "Hmget_loop db keyPrefix keys data =
     data @ concat (map (\<lambda>key. case Get db (Bconcat [keyPrefix, key]) of
                                   Inl err \<Rightarrow> [] | Inr val \<Rightarrow> [key, val]) keys)"
  by (induction keys arbitrary: data) (simp_all split: sum.splits)

lemma concat_pairs_nonempty:
  "(concat (map (\<lambda>key. case G key of Inl err \<Rightarrow> [] | Inr val \<Rightarrow> [key, val]) keys) \<noteq> []) =
     (\<exists>key \<in> set keys. \<exists>val. G key = Inr val)"
  by (induction keys) (auto split: sum.splits)

lemma List_loop_pairs:
  "List_loop (concat (map (\<lambda>key. case G key of Inl err \<Rightarrow> [] | Inr val \<Rightarrow> [key, val]) keys)) =
     concat (map (\<lambda>key. case G key of Inl err \<Rightarrow> [] | Inr val \<Rightarrow> [\<lparr>Key = key, Value = val\<rparr>]) keys)"
  by (induction keys) (auto split: sum.splits)

lemma Reply_List_eq: "Reply_List r = List_loop (Data r)"
  by (cases "Data r") (simp_all add: Reply_List_def)

text \<open>
  Claim C6.  The data of \<^verbatim>\<open>Hmget\<close> are the pairs (member, value) of the members whose point
  read succeeds, in the order the members were given; a member whose read fails, not found
  included, contributes nothing.  The state is \<open>ok\<close> if and only if some member was read.
\<close>

theorem Hmget_skips_failed_reads:
  "Data (Hmget db name keys) =
     concat (map (\<lambda>key. case Get db (Bconcat [hashPrefix, StringToBytesNoCopy name, splitChar, key]) of
                          Inl err \<Rightarrow> []
                        | Inr val \<Rightarrow> [key, val]) keys) \<and>
   Reply_List (Hmget db name keys) =
     concat (map (\<lambda>key. case Get db (Bconcat [hashPrefix, StringToBytesNoCopy name, splitChar, key]) of
                          Inl err \<Rightarrow> []
                        | Inr val \<Rightarrow> [\<lparr>Key = key, Value = val\<rparr>]) keys) \<and>
   Reply_OK (Hmget db name keys) =
     (\<exists>key \<in> set keys. \<exists>val.
        Get db (Bconcat [hashPrefix, StringToBytesNoCopy name, splitChar, key]) = Inr val)"
proof -
  let ?G = "\<lambda>key. Get db (Bconcat [hashPrefix, StringToBytesNoCopy name, splitChar, key])"
  let ?D = "concat (map (\<lambda>key. case ?G key of Inl err \<Rightarrow> [] | Inr val \<Rightarrow> [key, val]) keys)"
  have d: "Data (Hmget db name keys) = ?D"
    by (simp add: Hmget_def Let_def Hmget_loop_eq Bconcat_def)
  have s: "State (Hmget db name keys) = (if ?D \<noteq> [] then replyOK else replyError)"
    by (simp add: Hmget_def Let_def Hmget_loop_eq Bconcat_def)
  have ne: "(?D \<noteq> []) = (\<exists>key \<in> set keys. \<exists>val. ?G key = Inr val)"
    by (rule concat_pairs_nonempty)
  have l: "Reply_List (Hmget db name keys) =
     concat (map (\<lambda>key. case ?G key of Inl err \<Rightarrow> [] | Inr val \<Rightarrow> [\<lparr>Key = key, Value = val\<rparr>]) keys)"
    by (simp only: Reply_List_eq d List_loop_pairs)
  have ok: "Reply_OK (Hmget db name keys) = (\<exists>key \<in> set keys. \<exists>val. ?G key = Inr val)"
    unfolding Reply_OK_def s using ne by (simp add: replyOK_def replyError_def)
  from d l ok show ?thesis by simp
qed

theorem Hmget_skips_failed_reads_witness:
  "Data (Hmget \<lparr>kvs = [([30, 104, 28, 97], [2]), ([30, 104, 28, 98], [5]), ([30, 104, 28, 99], [3])],
               get_fault = [([30, 104, 28, 98], ''leveldb: closed'')],
               write_fault = None, iter_fault = None\<rparr>
          ''h'' [[99], [100], [98], [97]]) = [[99], [3], [97], [2]] \<and>
   Reply_OK (Hmget \<lparr>kvs = [([30, 104, 28, 97], [2]), ([30, 104, 28, 98], [5]), ([30, 104, 28, 99], [3])],
               get_fault = [([30, 104, 28, 98], ''leveldb: closed'')],
               write_fault = None, iter_fault = None\<rparr>
          ''h'' [[99], [100], [98], [97]]) \<and>
   \<not> Reply_OK (Hmget (store_of []) ''h'' [[99], [100]])"
  using Hmget_skips_failed_reads
      [of "\<lparr>kvs = [([30, 104, 28, 97], [2]), ([30, 104, 28, 98], [5]), ([30, 104, 28, 99], [3])],
               get_fault = [([30, 104, 28, 98], ''leveldb: closed'')],
               write_fault = None, iter_fault = None\<rparr>" "''h''" "[[99], [100], [98], [97]]"]
    Hmget_skips_failed_reads [of "store_of []" "''h''" "[[99], [100]]"]
  by (simp add: store_of_def Get_def Bconcat_def hashPrefix_def splitChar_def
      StringToBytesNoCopy_def)

lemma Hmset_loop_eq:
  "Hmset_loop keyPrefix kvl i batch =
     batch @ map (\<lambda>(k, v). BatchPut (Bconcat [keyPrefix, k]) v) (pairs_of (drop i kvl))"
proof (induction keyPrefix kvl i batch rule: Hmset_loop.induct)
  case (1 keyPrefix kvl i batch)
  show ?case
  proof (cases "int i < int (length kvl) - 1")
    case True
    then have i: "Suc i < length kvl" by simp
    then have "drop i kvl = kvl ! i # kvl ! (i + 1) # drop (i + 2) kvl"
      by (simp add: Cons_nth_drop_Suc Suc_lessD)
    with 1 True show ?thesis
      by (subst Hmset_loop.simps) simp
  next
    case False
    then have "length (drop i kvl) \<le> 1" by simp
    then have "pairs_of (drop i kvl) = []"
      by (cases "drop i kvl" rule: pairs_of.cases) simp_all
    with False show ?thesis
      by (subst Hmset_loop.simps) simp
  qed
qed


lemma foldl_BatchPut:
  "foldl apply_op s (map (\<lambda>(k, v). BatchPut (f k) v) ps) = foldl (\<lambda>s (k, v). kv_put (f k) v s) s ps"
  by (induction ps arbitrary: s) auto

text \<open>
  Claim C7.  \<^verbatim>\<open>Hmset\<close> returns the validation error exactly when the flattened pair list is
  empty or of odd length, whatever the store would answer to a write: no write is attempted.
  On a non-empty list of even length it submits one batch that puts every pair, in order, so
  that either the store refuses the batch and nothing changes, or all the pairs are written.
\<close>

theorem Hmset_validation_then_one_batch:
  "(Hmset db name kvl = Inl (ErrNew ''kvs len must is an even number'')) =
     (kvl = [] \<or> odd (length kvl)) \<and>
   (kvl \<noteq> [] \<and> even (length kvl) \<longrightarrow>
      Hmset db name kvl =
        Write db (map (\<lambda>(k, v). BatchPut (Bconcat [hashPrefix, StringToBytesNoCopy name, splitChar, k]) v)
                    (pairs_of kvl)) \<and>
      Hmset db name kvl =
        (case write_fault db of
           Some msg \<Rightarrow> Inl (ErrStore msg)
         | None \<Rightarrow>
             Inr (db\<lparr>kvs :=
                 foldl (\<lambda>s (k, v). kv_put (Bconcat [hashPrefix, StringToBytesNoCopy name, splitChar, k]) v s)
                   (kvs db) (pairs_of kvl)\<rparr>)))"
proof (cases "kvl = [] \<or> odd (length kvl)")
  case True
  then show ?thesis
    by (auto simp add: Hmset_def)
next
  case False
  let ?f = "\<lambda>k. Bconcat [hashPrefix, StringToBytesNoCopy name, splitChar, k]"
  have 1: "Hmset db name kvl = Write db (map (\<lambda>(k, v). BatchPut (?f k) v) (pairs_of kvl))"
    using False by (simp add: Hmset_def Let_def Hmset_loop_eq Bconcat_def)
  have 2: "Write db (map (\<lambda>(k, v). BatchPut (?f k) v) (pairs_of kvl)) =
        (case write_fault db of
           Some msg \<Rightarrow> Inl (ErrStore msg)
         | None \<Rightarrow> Inr (db\<lparr>kvs := foldl (\<lambda>s (k, v). kv_put (?f k) v s) (kvs db) (pairs_of kvl)\<rparr>))"
    unfolding Write_def by (simp only: foldl_BatchPut)
  have 3: "Hmset db name kvl \<noteq> Inl (ErrNew ''kvs len must is an even number'')"
    unfolding 1 Write_def by (simp split: option.splits)
  from False 1 2 3 show ?thesis by simp
qed


theorem Hmset_validation_then_one_batch_witness:
  "Hmset (store_of []) ''h'' [[98], [1], [97], [2]] =
     Inr (store_of [([30, 104, 28, 97], [2]), ([30, 104, 28, 98], [1])]) \<and>
   Hmset ((store_of [])\<lparr>write_fault := Some ''leveldb: closed''\<rparr>) ''h'' [[98], [1], [97]] =
     Inl (ErrNew ''kvs len must is an even number'') \<and>
   Hmset ((store_of [])\<lparr>write_fault := Some ''leveldb: closed''\<rparr>) ''h'' [[98], [1]] =
     Inl (ErrStore ''leveldb: closed'')"
  using Hmset_validation_then_one_batch [of "store_of []" "''h''" "[[98], [1], [97], [2]]"]
    Hmset_validation_then_one_batch
      [of "(store_of [])\<lparr>write_fault := Some ''leveldb: closed''\<rparr>" "''h''" "[[98], [1], [97]]"]
    Hmset_validation_then_one_batch
      [of "(store_of [])\<lparr>write_fault := Some ''leveldb: closed''\<rparr>" "''h''" "[[98], [1]]"]
  by (simp add: store_of_def Write_def Bconcat_def hashPrefix_def splitChar_def
      StringToBytesNoCopy_def)

section \<open>The two indices of a sorted set\<close>

lemma Uint64ToBytes_7: "Uint64ToBytes 7 = [0, 0, 0, 0, 0, 0, 0, 7]"
  by (simp add: Uint64ToBytes_def)

text \<open>
  Claim C1, at the input it names.  On an empty store, where the indices agree,
  \<^verbatim>\<open>Zmset\<close> with the member \<open>m\<close> given twice, with the scores 1 and 2, succeeds and leaves
  the direct index at score 2 and two order-index entries, for the scores 1 and 2: the
  indices no longer agree.  Likewise \<^verbatim>\<open>Zincr\<close> with step 0 on a member of score 7 succeeds
  and leaves the direct index at 7 and no order-index entry.
\<close>

theorem Zmset_repeated_member_breaks_dual_index:
  "Zmset (store_of []) ''z'' [[109], [0, 0, 0, 0, 0, 0, 0, 1], [109], [0, 0, 0, 0, 0, 0, 0, 2]] =
     Inr (store_of
           [([29, 122, 28, 109], [0, 0, 0, 0, 0, 0, 0, 2]),
            ([31, 122, 28, 0, 0, 0, 0, 0, 0, 0, 1, 28, 109], []),
            ([31, 122, 28, 0, 0, 0, 0, 0, 0, 0, 2, 28, 109], [])]) \<and>
   zset_consistent (store_of []) ''z'' [109] \<and>
   order_scores
     (store_of
           [([29, 122, 28, 109], [0, 0, 0, 0, 0, 0, 0, 2]),
            ([31, 122, 28, 0, 0, 0, 0, 0, 0, 0, 1, 28, 109], []),
            ([31, 122, 28, 0, 0, 0, 0, 0, 0, 0, 2, 28, 109], [])]) ''z'' [109] =
     [[0, 0, 0, 0, 0, 0, 0, 1], [0, 0, 0, 0, 0, 0, 0, 2]] \<and>
   \<not> zset_consistent
     (store_of
           [([29, 122, 28, 109], [0, 0, 0, 0, 0, 0, 0, 2]),
            ([31, 122, 28, 0, 0, 0, 0, 0, 0, 0, 1, 28, 109], []),
            ([31, 122, 28, 0, 0, 0, 0, 0, 0, 0, 2, 28, 109], [])]) ''z'' [109] \<and>
   zset_consistent
     (store_of
           [([29, 122, 28, 109], [0, 0, 0, 0, 0, 0, 0, 7]),
            ([31, 122, 28, 0, 0, 0, 0, 0, 0, 0, 7, 28, 109], [])]) ''z'' [109] \<and>
   Zincr
     (store_of
           [([29, 122, 28, 109], [0, 0, 0, 0, 0, 0, 0, 7]),
            ([31, 122, 28, 0, 0, 0, 0, 0, 0, 0, 7, 28, 109], [])]) ''z'' [109] 0 =
     Inr (7, store_of [([29, 122, 28, 109], [0, 0, 0, 0, 0, 0, 0, 7])]) \<and>
   \<not> zset_consistent (store_of [([29, 122, 28, 109], [0, 0, 0, 0, 0, 0, 0, 7])]) ''z'' [109]"
proof -
  have a: "Zmset (store_of []) ''z'' [[109], [0, 0, 0, 0, 0, 0, 0, 1], [109], [0, 0, 0, 0, 0, 0, 0, 2]] =
     Inr (store_of
           [([29, 122, 28, 109], [0, 0, 0, 0, 0, 0, 0, 2]),
            ([31, 122, 28, 0, 0, 0, 0, 0, 0, 0, 1, 28, 109], []),
            ([31, 122, 28, 0, 0, 0, 0, 0, 0, 0, 2, 28, 109], [])])"
    by (simp add: Zmset_def Zmset_loop.simps Let_def store_of_def Write_def Get_or_nil_def Get_def
        Bconcat_def zetScorePrefix_def zetKeyPrefix_def splitChar_def StringToBytesNoCopy_def
        kv_delete_def)
  have b: "Zincr
     (store_of
           [([29, 122, 28, 109], [0, 0, 0, 0, 0, 0, 0, 7]),
            ([31, 122, 28, 0, 0, 0, 0, 0, 0, 0, 7, 28, 109], [])]) ''z'' [109] 0 =
     Inr (7, store_of [([29, 122, 28, 109], [0, 0, 0, 0, 0, 0, 0, 7])])"
    by (simp add: Zincr_def Zincr_write_def Zget_def Let_def store_of_def Write_def Get_def
        Bconcat_def zetScorePrefix_def zetKeyPrefix_def splitChar_def StringToBytesNoCopy_def
        kv_delete_def Uint64ToBytes_7 [symmetric] BytesToUint64_Uint64ToBytes)
  have c: "zset_consistent (store_of []) ''z'' [109]"
    by (simp add: zset_consistent_def order_scores_def store_of_def)
  show ?thesis
    apply (intro conjI a b c)
    apply (simp_all add: zset_consistent_def order_scores_def store_of_def Let_def scoreByteLen_def
        Bconcat_def zetScorePrefix_def zetKeyPrefix_def splitChar_def StringToBytesNoCopy_def)
    done
qed

section \<open>Byte order, prefixes and ranges\<close>

lemma append_less_append: "(p @ x < p @ y) = (x < y)" for p :: bytes
  by (induction p) simp_all

lemma append_le_append: "(p @ x \<le> p @ y) = (x \<le> y)" for p :: bytes
  by (induction p) simp_all

lemma le_append_self: "p \<le> p @ x" for p :: bytes
  using append_le_append [of p "[]" x] by simp

lemma between_has_prefix: "p \<le> k \<Longrightarrow> k < p @ s \<Longrightarrow> \<exists>m. k = p @ m" for p :: bytes
proof (induction p arbitrary: k)
  case Nil
  then show ?case by simp
next
  case (Cons a p)
  then show ?case by (cases k) auto
qed

lemma unat_byte_less: "unat a < 256" for a :: byte
  using unsigned_less [of a] by simp

lemma unat_byte_succ: "c < 255 \<Longrightarrow> unat (c + 1) = unat c + 1" for c :: byte
  by (simp add: word_less_nat_alt unat_word_ariths)

lemma byte_less_succ: "c < 255 \<Longrightarrow> (a < c + 1) = (a \<le> c)" for a c :: byte
  by (auto simp add: word_less_nat_alt word_le_nat_alt unat_byte_succ)

lemma byte_le_max: "\<not> 255 < a" for a :: byte
  using unat_byte_less [of a] by (simp add: word_less_nat_alt)

lemma byte_succ_range:
  fixes c :: byte
  assumes "c < 255"
  shows "(q @ [c] \<le> k \<and> k < q @ [c + 1]) = prefix (q @ [c]) k"
proof
  assume a: "q @ [c] \<le> k \<and> k < q @ [c + 1]"
  have "q \<le> q @ [c]" by (rule le_append_self)
  with a have "q \<le> k" by (meson order_trans)
  with a obtain m where k: "k = q @ m" using between_has_prefix by blast
  from a have "[c] \<le> m" and "m < [c + 1]"
    by (simp_all add: k append_le_append append_less_append)
  then obtain m' where "m = c # m'"
    using assms by (cases m) (auto simp add: byte_less_succ)
  then show "prefix (q @ [c]) k" by (simp add: k)
next
  assume "prefix (q @ [c]) k"
  then obtain m where k: "k = q @ c # m" by (auto simp add: prefix_def)
  have "c < c + 1" using assms by (simp add: byte_less_succ)
  then show "q @ [c] \<le> k \<and> k < q @ [c + 1]"
    by (simp add: k append_le_append append_less_append)
qed

lemma BytesPrefix_limit_range:
  "(rev r \<le> k \<and> below (BytesPrefix_limit r) k) = prefix (rev r) k"
proof (induction r rule: BytesPrefix_limit.induct)
  case 1
  show ?case by (simp add: below_def)
next
  case (2 c cs)
  show ?case
  proof (cases "c < 255")
    case True
    then show ?thesis using byte_succ_range [of c "rev cs" k] by (simp add: below_def)
  next
    case False
    show ?thesis
    proof
      assume a: "rev (c # cs) \<le> k \<and> below (BytesPrefix_limit (c # cs)) k"
      have "rev cs \<le> rev cs @ [c]" by (rule le_append_self)
      with a have "rev cs \<le> k" by (simp, meson order_trans)
      with a False 2 have "prefix (rev cs) k" by simp
      then obtain m where k: "k = rev cs @ m" by (auto simp add: prefix_def)
      from a have "[c] \<le> m" by (simp add: k append_le_append)
      moreover have "c = 255" using False byte_le_max [of c] by simp
      ultimately obtain m' where "m = c # m'"
        using byte_le_max by (cases m) auto
      then show "prefix (rev (c # cs)) k" by (simp add: k)
    next
      assume p: "prefix (rev (c # cs)) k"
      then obtain m where k: "k = rev cs @ c # m" by (auto simp add: prefix_def)
      then have "prefix (rev cs) k" by simp
      with 2 False have "below (BytesPrefix_limit cs) k" by blast
      then show "rev (c # cs) \<le> k \<and> below (BytesPrefix_limit (c # cs)) k"
        using False by (simp add: k append_le_append)
    qed
  qed
qed

lemma in_range_BytesPrefix: "in_range (BytesPrefix p) k = prefix p k"
  using BytesPrefix_limit_range [of "rev p" k]
  by (simp add: in_range_def BytesPrefix_def below_def)


lemma hits_0: "hits limit 0 xs = take_limit limit xs"
  by (simp add: hits_def take_limit_def)

lemma hits_Nil: "hits limit n [] = []"
  by (simp add: hits_def)

lemma hits_Cons_last: "n + 1 = limit \<Longrightarrow> hits limit n (x # xs) = [x]"
proof -
  assume "n + 1 = limit"
  then have "n < limit" and "nat (limit - n) = Suc 0"
    by simp_all
  then show ?thesis
    by (simp add: hits_def)
qed

lemma hits_Cons_more: "n + 1 \<noteq> limit \<Longrightarrow> hits limit n (x # xs) = x # hits limit (n + 1) xs"
proof (cases "n < limit")
  case True
  assume "n + 1 \<noteq> limit"
  with True have a: "n + 1 < limit" by simp
  then have "nat (limit - n) = Suc (nat (limit - (n + 1)))" by simp
  with True a show ?thesis by (simp add: hits_def)
next
  case False
  then show ?thesis by (simp add: hits_def)
qed

lemma scan_loop_Some:
  assumes "\<And>k v p. ext k v = Some p \<Longrightarrow> p = [f (k, v), g (k, v)]"
    and "scan_loop sel ext limit items n data = Some (n', data', st)"
  shows "n' = n + int (length (hits limit n (filter (\<lambda>e. sel (fst e)) items))) \<and>
         data' = data @ concat (map (\<lambda>e. [f e, g e]) (hits limit n (filter (\<lambda>e. sel (fst e)) items)))"
  using assms(2)
proof (induction items arbitrary: n data)
  case Nil
  then show ?case by (simp add: hits_Nil)
next
  case (Cons e items)
  obtain k v where e: "e = (k, v)" by (cases e)
  show ?case
  proof (cases "sel k")
    case False
    with Cons e show ?thesis by simp
  next
    case True
    with Cons.prems e obtain p where p: "ext k v = Some p"
      by (cases "ext k v") simp_all
    then have p': "p = [f e, g e]" using assms(1) e by simp
    show ?thesis
    proof (cases "n + 1 = limit")
      case last: True
      with Cons.prems e True p p' show ?thesis
        by (simp add: hits_Cons_last)
    next
      case more: False
      with Cons.prems e True p have "scan_loop sel ext limit items (n + 1) (data @ p) = Some (n', data', st)"
        by simp
      from Cons.IH [OF this] more True e p' show ?thesis
        by (simp add: hits_Cons_more)
    qed
  qed
qed

lemma scan_loop_total:
  assumes "\<And>e. e \<in> set items \<Longrightarrow> sel (fst e) \<Longrightarrow> ext (fst e) (snd e) \<noteq> None"
  shows "\<exists>res. scan_loop sel ext limit items n data = Some res"
  using assms
proof (induction items arbitrary: n data)
  case Nil
  show ?case by auto
next
  case (Cons e items)
  obtain k v where e: "e = (k, v)" by (cases e)
  have IH: "\<exists>res. scan_loop sel ext limit items m d = Some res" for m d
    using Cons by simp
  show ?case
  proof (cases "sel k")
    case False
    with e IH show ?thesis by simp
  next
    case True
    with Cons.prems [of e] e obtain p where "ext k v = Some p" by auto
    with True e IH show ?thesis by auto
  qed
qed

section \<open>What a scan replies\<close>

lemma prefix_take_limit: "prefix (take_limit limit xs) xs"
  by (simp add: take_limit_def take_is_prefix)

lemma length_take_limit: "0 < limit \<Longrightarrow> length (take_limit limit xs) \<le> nat limit"
  by (simp add: take_limit_def)

lemma scan_reply_shape:
  assumes pair: "\<And>k v p. ext k v = Some p \<Longrightarrow> p = [f (k, v), g (k, v)]"
    and it: "fault it = iter_fault db"
    and res: "map_option (scan_reply it) (scan_loop sel ext limit items 0 []) = Some r"
  shows "\<exists>H. reply_of_hits db limit (filter (\<lambda>e. sel (fst e)) items) (\<lambda>e. [f e, g e]) H r"
proof -
  let ?F = "filter (\<lambda>e. sel (fst e)) items"
  let ?H = "take_limit limit ?F"
  from res obtain n' data' st where
    loop: "scan_loop sel ext limit items 0 [] = Some (n', data', st)"
    and r: "r = scan_reply it (n', data', st)"
    by (cases "scan_loop sel ext limit items 0 []") auto
  from scan_loop_Some [where f = f and g = g, OF pair loop]
  have n': "n' = int (length ?H)" and d: "data' = concat (map (\<lambda>e. [f e, g e]) ?H)"
    by (simp_all add: hits_0)
  show ?thesis
  proof (cases "st \<and> iter_fault db \<noteq> None")
    case True
    then obtain n msg where "iter_fault db = Some (n, msg)" by auto
    with True r it have "reply_of_hits db limit ?F (\<lambda>e. [f e, g e]) [] r"
      by (simp add: reply_of_hits_def scan_reply_def iter_Error_def)
    then show ?thesis ..
  next
    case False
    then have "(if st then iter_Error it else None) = None"
      using it by (cases "iter_fault db") (auto simp add: iter_Error_def)
    with r have "r = \<lparr>State = (if n' > 0 then replyOK else replyError), Data = data'\<rparr>"
      by (simp add: scan_reply_def)
    then have "reply_of_hits db limit ?F (\<lambda>e. [f e, g e]) ?H r"
      using n' d by (simp add: reply_of_hits_def prefix_take_limit length_take_limit)
    then show ?thesis ..
  qed
qed

lemma reply_of_hits_prefix:
  assumes "reply_of_hits db limit F pr H r" and "prefix F G" and "iter_fault db = None \<Longrightarrow> F = G"
  shows "reply_of_hits db limit G pr H r"
  using assms unfolding reply_of_hits_def by (auto intro: prefix_order.trans)

lemma iter_First_Next_prefix:
  "prefix (iter_First_Next (NewIterator db R)) (filter (\<lambda>e. in_range R (fst e)) (kvs db))"
  by (auto simp add: iter_First_Next_def NewIterator_def take_is_prefix split: option.splits)

lemma iter_First_Next_all:
  "iter_fault db = None \<Longrightarrow>
   iter_First_Next (NewIterator db R) = filter (\<lambda>e. in_range R (fst e)) (kvs db)"
  by (simp add: iter_First_Next_def NewIterator_def)

lemma iter_Last_Prev_prefix:
  "prefix (iter_Last_Prev (NewIterator db R)) (rev (filter (\<lambda>e. in_range R (fst e)) (kvs db)))"
  by (auto simp add: iter_Last_Prev_def NewIterator_def take_is_prefix split: option.splits)

lemma iter_Last_Prev_all:
  "iter_fault db = None \<Longrightarrow>
   iter_Last_Prev (NewIterator db R) = rev (filter (\<lambda>e. in_range R (fst e)) (kvs db))"
  by (simp add: iter_Last_Prev_def NewIterator_def)

lemma forward_scan_shape:
  assumes pair: "\<And>k v p. ext k v = Some p \<Longrightarrow> p = [f (k, v), g (k, v)]"
    and res: "map_option (scan_reply (NewIterator db R))
                (scan_loop sel ext limit (iter_First_Next (NewIterator db R)) 0 []) = Some r"
  shows "\<exists>H. reply_of_hits db limit
               (filter (\<lambda>e. in_range R (fst e) \<and> sel (fst e)) (kvs db)) (\<lambda>e. [f e, g e]) H r"
proof -
  let ?E = "filter (\<lambda>e. in_range R (fst e)) (kvs db)"
  let ?G = "filter (\<lambda>e. in_range R (fst e) \<and> sel (fst e)) (kvs db)"
  let ?I = "iter_First_Next (NewIterator db R)"
  have "fault (NewIterator db R) = iter_fault db"
    by (simp add: NewIterator_def)
  from scan_reply_shape [where f = f and g = g, OF pair this res] obtain H where
    H: "reply_of_hits db limit (filter (\<lambda>e. sel (fst e)) ?I) (\<lambda>e. [f e, g e]) H r" ..
  have eq: "filter (\<lambda>e. sel (fst e)) ?E = ?G"
    by simp
  have "prefix (filter (\<lambda>e. sel (fst e)) ?I) (filter (\<lambda>e. sel (fst e)) ?E)"
    by (rule filter_mono_prefix) (rule iter_First_Next_prefix)
  then have pre: "prefix (filter (\<lambda>e. sel (fst e)) ?I) ?G"
    by (simp only: eq)
  have all: "filter (\<lambda>e. sel (fst e)) ?I = ?G" if "iter_fault db = None"
    by (simp only: iter_First_Next_all [OF that] eq)
  from H pre all have "reply_of_hits db limit ?G (\<lambda>e. [f e, g e]) H r"
    by (rule reply_of_hits_prefix)
  then show ?thesis ..
qed

lemma backward_scan_shape:
  assumes pair: "\<And>k v p. ext k v = Some p \<Longrightarrow> p = [f (k, v), g (k, v)]"
    and res: "map_option (scan_reply (NewIterator db R))
                (scan_loop sel ext limit (iter_Last_Prev (NewIterator db R)) 0 []) = Some r"
  shows "\<exists>H. reply_of_hits db limit
               (rev (filter (\<lambda>e. in_range R (fst e) \<and> sel (fst e)) (kvs db))) (\<lambda>e. [f e, g e]) H r"
proof -
  let ?E = "rev (filter (\<lambda>e. in_range R (fst e)) (kvs db))"
  let ?G = "rev (filter (\<lambda>e. in_range R (fst e) \<and> sel (fst e)) (kvs db))"
  let ?I = "iter_Last_Prev (NewIterator db R)"
  have "fault (NewIterator db R) = iter_fault db"
    by (simp add: NewIterator_def)
  from scan_reply_shape [where f = f and g = g, OF pair this res] obtain H where
    H: "reply_of_hits db limit (filter (\<lambda>e. sel (fst e)) ?I) (\<lambda>e. [f e, g e]) H r" ..
  have eq: "filter (\<lambda>e. sel (fst e)) ?E = ?G"
    by (simp add: rev_filter)
  have "prefix (filter (\<lambda>e. sel (fst e)) ?I) (filter (\<lambda>e. sel (fst e)) ?E)"
    by (rule filter_mono_prefix) (rule iter_Last_Prev_prefix)
  then have pre: "prefix (filter (\<lambda>e. sel (fst e)) ?I) ?G"
    by (simp only: eq)
  have all: "filter (\<lambda>e. sel (fst e)) ?I = ?G" if "iter_fault db = None"
    by (simp only: iter_Last_Prev_all [OF that] eq)
  from H pre all have "reply_of_hits db limit ?G (\<lambda>e. [f e, g e]) H r"
    by (rule reply_of_hits_prefix)
  then show ?thesis ..
qed

lemma bytes_Compare_less: "(bytes_Compare a b = - 1) = (a < b)"
  by (simp add: bytes_Compare_def)

lemma bytes_Compare_greater: "(bytes_Compare a b = 1) = (b < a)"
  by (auto simp add: bytes_Compare_def)

lemma slice_from_prefix: "prefix q k \<Longrightarrow> slice_from k (length q) = Some (drop (length q) k)"
  by (auto simp add: slice_from_def prefix_def)

lemma member_pair:
  "map_option (\<lambda>m. [m, v]) (slice_from k l) = Some p \<Longrightarrow> p = [drop l (fst (k, v)), snd (k, v)]"
  by (auto simp add: slice_from_def split: if_splits)

lemma start_range:
  "(in_range ((BytesPrefix q)\<lparr>Start := q @ s\<rparr>) k \<and> q @ s < k) = (prefix q k \<and> q @ s < k)"
proof -
  have "q \<le> k" if "q @ s < k"
  proof -
    have "q \<le> q @ s" by (rule le_append_self)
    with that show ?thesis by (meson less_imp_le order_trans)
  qed
  then show ?thesis
    using in_range_BytesPrefix [of q k]
    by (auto simp add: in_range_def BytesPrefix_def)
qed

lemma limit_range:
  "in_range ((BytesPrefix q)\<lparr>Limit := Some (q @ s)\<rparr>) k = (prefix q k \<and> k < q @ s)"
proof
  assume a: "in_range ((BytesPrefix q)\<lparr>Limit := Some (q @ s)\<rparr>) k"
  then have "q \<le> k" and "k < q @ s"
    by (simp_all add: in_range_def BytesPrefix_def)
  then show "prefix q k \<and> k < q @ s"
    using between_has_prefix [of q k s] by (auto simp add: prefix_def)
next
  assume a: "prefix q k \<and> k < q @ s"
  then have "q \<le> k"
    by (auto simp add: prefix_def le_append_self)
  with a show "in_range ((BytesPrefix q)\<lparr>Limit := Some (q @ s)\<rparr>) k"
    by (simp add: in_range_def BytesPrefix_def)
qed

lemma forward_prefix_scan:
  fixes q s :: bytes
  defines "R \<equiv> (if length (q @ s) > length q then (BytesPrefix q)\<lparr>Start := q @ s\<rparr> else BytesPrefix q)"
  shows "\<exists>r H.
     map_option (scan_reply (NewIterator db R))
       (scan_loop (\<lambda>k. bytes_Compare (q @ s) k = - 1)
          (\<lambda>k v. map_option (\<lambda>m. [m, v]) (slice_from k (length q)))
          limit (iter_First_Next (NewIterator db R)) 0 []) = Some r \<and>
     reply_of_hits db limit (filter (\<lambda>e. prefix q (fst e) \<and> q @ s < fst e) (kvs db))
       (\<lambda>e. [drop (length q) (fst e), snd e]) H r"
proof -
  let ?sel = "\<lambda>k. bytes_Compare (q @ s) k = - 1"
  let ?ext = "\<lambda>k v. map_option (\<lambda>m. [m, v]) (slice_from k (length q))"
  let ?I = "iter_First_Next (NewIterator db R)"
  have rng: "(in_range R k \<and> ?sel k) = (prefix q k \<and> q @ s < k)" for k
  proof (cases "s = []")
    case True
    then show ?thesis by (simp add: R_def in_range_BytesPrefix bytes_Compare_less)
  next
    case False
    then show ?thesis by (simp add: R_def start_range bytes_Compare_less)
  qed
  have "\<exists>res. scan_loop ?sel ?ext limit ?I 0 [] = Some res"
  proof (rule scan_loop_total)
    fix e
    assume "e \<in> set ?I" and sel: "?sel (fst e)"
    then have "e \<in> set (filter (\<lambda>e. in_range R (fst e)) (kvs db))"
      using iter_First_Next_prefix [of db R] by (meson set_mono_prefix subsetD)
    then have "in_range R (fst e)" by simp
    with sel rng have "prefix q (fst e)" by blast
    then show "?ext (fst e) (snd e) \<noteq> None"
      by (simp add: slice_from_prefix)
  qed
  then obtain r where r: "map_option (scan_reply (NewIterator db R)) (scan_loop ?sel ?ext limit ?I 0 []) = Some r"
    by auto
  from forward_scan_shape [where f = "\<lambda>e. drop (length q) (fst e)" and g = snd, OF member_pair r]
  obtain H where "reply_of_hits db limit (filter (\<lambda>e. in_range R (fst e) \<and> ?sel (fst e)) (kvs db))
       (\<lambda>e. [drop (length q) (fst e), snd e]) H r" ..
  then have "reply_of_hits db limit (filter (\<lambda>e. prefix q (fst e) \<and> q @ s < fst e) (kvs db))
       (\<lambda>e. [drop (length q) (fst e), snd e]) H r"
    by (simp only: rng)
  with r show ?thesis by blast
qed

lemma backward_prefix_scan:
  fixes q s :: bytes
  defines "R \<equiv> (if length (q @ s) > length q then (BytesPrefix q)\<lparr>Limit := Some (q @ s)\<rparr> else BytesPrefix q)"
  shows "\<exists>r H.
     map_option (scan_reply (NewIterator db R))
       (scan_loop (\<lambda>k. True)
          (\<lambda>k v. map_option (\<lambda>m. [m, v]) (slice_from k (length q)))
          limit (iter_Last_Prev (NewIterator db R)) 0 []) = Some r \<and>
     reply_of_hits db limit
       (rev (filter (\<lambda>e. prefix q (fst e) \<and> (s \<noteq> [] \<longrightarrow> fst e < q @ s)) (kvs db)))
       (\<lambda>e. [drop (length q) (fst e), snd e]) H r"
proof -
  let ?sel = "\<lambda>k :: bytes. True"
  let ?ext = "\<lambda>k v. map_option (\<lambda>m. [m, v]) (slice_from k (length q))"
  let ?I = "iter_Last_Prev (NewIterator db R)"
  have rng: "(in_range R k \<and> ?sel k) = (prefix q k \<and> (s \<noteq> [] \<longrightarrow> k < q @ s))" for k
  proof (cases "s = []")
    case True
    then show ?thesis by (simp add: R_def in_range_BytesPrefix)
  next
    case False
    then show ?thesis by (simp add: R_def limit_range)
  qed
  have "\<exists>res. scan_loop ?sel ?ext limit ?I 0 [] = Some res"
  proof (rule scan_loop_total)
    fix e
    assume "e \<in> set ?I"
    then have "e \<in> set (rev (filter (\<lambda>e. in_range R (fst e)) (kvs db)))"
      using iter_Last_Prev_prefix [of db R] by (meson set_mono_prefix subsetD)
    then have "in_range R (fst e)" by simp
    with rng have "prefix q (fst e)" by blast
    then show "?ext (fst e) (snd e) \<noteq> None"
      by (simp add: slice_from_prefix)
  qed
  then obtain r where r: "map_option (scan_reply (NewIterator db R)) (scan_loop ?sel ?ext limit ?I 0 []) = Some r"
    by auto
  from backward_scan_shape [where f = "\<lambda>e. drop (length q) (fst e)" and g = snd, OF member_pair r]
  obtain H where "reply_of_hits db limit (rev (filter (\<lambda>e. in_range R (fst e) \<and> ?sel (fst e)) (kvs db)))
       (\<lambda>e. [drop (length q) (fst e), snd e]) H r" ..
  then have "reply_of_hits db limit
       (rev (filter (\<lambda>e. prefix q (fst e) \<and> (s \<noteq> [] \<longrightarrow> fst e < q @ s)) (kvs db)))
       (\<lambda>e. [drop (length q) (fst e), snd e]) H r"
    by (simp only: rng)
  with r show ?thesis by blast
qed

section \<open>Forward scan of a hashmap\<close>

lemma realKey_start: "(if length (q @ s) > length q then q @ s else Start (BytesPrefix q)) = q @ s"
  by (simp add: BytesPrefix_def)

lemma Hscan_shape:
  "\<exists>r H. Hscan db name keyStart limit = Some r \<and>
     reply_of_hits db limit
       (filter (\<lambda>e. prefix (hashPrefix @ StringToBytesNoCopy name @ splitChar) (fst e) \<and>
                    (hashPrefix @ StringToBytesNoCopy name @ splitChar) @ keyStart < fst e) (kvs db))
       (\<lambda>e. [drop (length (hashPrefix @ StringToBytesNoCopy name @ splitChar)) (fst e), snd e]) H r"
proof -
  let ?P = "hashPrefix @ StringToBytesNoCopy name @ splitChar"
  have "Hscan db name keyStart limit =
     map_option (scan_reply (NewIterator db (if length (?P @ keyStart) > length ?P then (BytesPrefix ?P)\<lparr>Start := ?P @ keyStart\<rparr> else BytesPrefix ?P)))
       (scan_loop (\<lambda>k. bytes_Compare (?P @ keyStart) k = - 1)
          (\<lambda>k v. map_option (\<lambda>m. [m, v]) (slice_from k (length ?P)))
          limit (iter_First_Next (NewIterator db (if length (?P @ keyStart) > length ?P then (BytesPrefix ?P)\<lparr>Start := ?P @ keyStart\<rparr> else BytesPrefix ?P))) 0 [])"
    unfolding Hscan_def Let_def Bconcat_def concat.simps append_Nil2 realKey_start
    by (simp only: append_assoc)
  then show ?thesis
    using forward_prefix_scan [of db ?P keyStart limit] by simp
qed


lemma List_loop_of_pairs:
  "List_loop (concat (map (\<lambda>e. [f e, g e]) H)) = map (\<lambda>e. \<lparr>Key = f e, Value = g e\<rparr>) H"
  by (induction H) simp_all

lemma reply_of_hits_List:
  "reply_of_hits db limit F (\<lambda>e. [f e, g e]) H r \<Longrightarrow>
   Reply_List r = map (\<lambda>e. \<lparr>Key = f e, Value = g e\<rparr>) H"
  by (simp add: reply_of_hits_def Reply_List_eq List_loop_of_pairs)

lemma reply_of_hits_Data:
  "reply_of_hits db limit F (\<lambda>e. [f e, g e]) H r \<Longrightarrow>
   Data r = concat (map (\<lambda>e. [Key e, Value e]) (Reply_List r))"
  by (simp add: reply_of_hits_def Reply_List_eq List_loop_of_pairs comp_def)

lemma reply_of_hits_subset: "reply_of_hits db limit F pr H r \<Longrightarrow> set H \<subseteq> set F"
  by (auto simp add: reply_of_hits_def dest: set_mono_prefix)

lemma reply_of_hits_length:
  "reply_of_hits db limit F pr H r \<Longrightarrow> 0 < limit \<Longrightarrow> length H \<le> nat limit"
  by (simp add: reply_of_hits_def)

lemma reply_of_hits_exact:
  "reply_of_hits db limit F pr H r \<Longrightarrow> iter_fault db = None \<Longrightarrow> H = take_limit limit F"
  by (simp add: reply_of_hits_def)

lemma sorted_wrt_prefix: "prefix H F \<Longrightarrow> sorted_wrt R F \<Longrightarrow> sorted_wrt R H"
  by (auto simp add: prefix_def sorted_wrt_append)

lemma sorted_hits:
  assumes "ordered_store db" and "reply_of_hits db limit (filter C (kvs db)) pr H r"
  shows "sorted_wrt (<) (map fst H)"
proof -
  from assms(1) have "sorted_wrt (\<lambda>a b. fst a < fst b) (kvs db)"
    by (simp add: ordered_store_def sorted_wrt_map)
  then have "sorted_wrt (\<lambda>a b. fst a < fst b) (filter C (kvs db))"
    by (rule sorted_wrt_filter)
  moreover from assms(2) have "prefix H (filter C (kvs db))"
    by (simp add: reply_of_hits_def)
  ultimately have "sorted_wrt (\<lambda>a b. fst a < fst b) H"
    by (rule sorted_wrt_prefix [rotated])
  then show ?thesis
    by (simp add: sorted_wrt_map)
qed

lemma sorted_hits_rev:
  assumes "ordered_store db" and "reply_of_hits db limit (rev (filter C (kvs db))) pr H r"
  shows "sorted_wrt (>) (map fst H)"
proof -
  from assms(1) have "sorted_wrt (\<lambda>a b. fst a < fst b) (kvs db)"
    by (simp add: ordered_store_def sorted_wrt_map)
  then have "sorted_wrt (\<lambda>a b. fst a < fst b) (filter C (kvs db))"
    by (rule sorted_wrt_filter)
  then have "sorted_wrt (\<lambda>a b. fst a > fst b) (rev (filter C (kvs db)))"
    by (simp add: sorted_wrt_rev)
  moreover from assms(2) have "prefix H (rev (filter C (kvs db)))"
    by (simp add: reply_of_hits_def)
  ultimately have "sorted_wrt (\<lambda>a b. fst a > fst b) H"
    by (rule sorted_wrt_prefix [rotated])
  then show ?thesis
    by (simp add: sorted_wrt_map)
qed

lemma sorted_members:
  fixes q :: bytes
  assumes "sorted_wrt (<) (map fst H)" and "\<forall>e \<in> set H. prefix q (fst e)"
  shows "sorted_wrt (<) (map (\<lambda>e. drop (length q) (fst e)) H)"
proof -
  have "sorted_wrt (\<lambda>a b. fst a < fst b) H"
    using assms(1) by (simp add: sorted_wrt_map)
  then have "sorted_wrt (\<lambda>a b. drop (length q) (fst a) < drop (length q) (fst b)) H"
  proof (rule sorted_wrt_mono_rel [rotated])
    fix a b
    assume a: "a \<in> set H" and b: "b \<in> set H" and lt: "fst a < fst b"
    from assms(2) a obtain x where x: "fst a = q @ x" by (auto simp add: prefix_def)
    from assms(2) b obtain y where y: "fst b = q @ y" by (auto simp add: prefix_def)
    from lt show "drop (length q) (fst a) < drop (length q) (fst b)"
      by (simp add: x y append_less_append)
  qed
  then show ?thesis
    by (simp add: sorted_wrt_map)
qed

lemma sorted_members_rev:
  fixes q :: bytes
  assumes "sorted_wrt (>) (map fst H)" and "\<forall>e \<in> set H. prefix q (fst e)"
  shows "sorted_wrt (>) (map (\<lambda>e. drop (length q) (fst e)) H)"
proof -
  have "sorted_wrt (\<lambda>a b. fst a > fst b) H"
    using assms(1) by (simp add: sorted_wrt_map)
  then have "sorted_wrt (\<lambda>a b. drop (length q) (fst a) > drop (length q) (fst b)) H"
  proof (rule sorted_wrt_mono_rel [rotated])
    fix a b
    assume a: "a \<in> set H" and b: "b \<in> set H" and lt: "fst a > fst b"
    from assms(2) a obtain x where x: "fst a = q @ x" by (auto simp add: prefix_def)
    from assms(2) b obtain y where y: "fst b = q @ y" by (auto simp add: prefix_def)
    from lt show "drop (length q) (fst a) > drop (length q) (fst b)"
      by (simp add: x y append_less_append)
  qed
  then show ?thesis
    by (simp add: sorted_wrt_map)
qed

text \<open>
  Claim C5, as amended.  On a store kept in key order, \<^verbatim>\<open>Hscan\<close> always replies; its data are
  the listed pairs, member then value; no listed member is \<open>startKey\<close>, every one is strictly
  greater than \<open>startKey\<close> and is a member of the bucket given without the bucket encoding,
  with its stored value; the members are strictly ascending; and there are at most \<open>limit\<close>
  of them when \<open>limit\<close> is positive.  When the iterator does not fail, the pairs are exactly
  the first \<open>limit\<close> entries of the bucket beyond \<open>startKey\<close>, all of them when \<open>limit\<close> is
  not positive.
\<close>

theorem Hscan_after_start_ascending:
  assumes "ordered_store db"
  shows "\<exists>r. Hscan db name startKey limit = Some r \<and>
     Data r = concat (map (\<lambda>e. [Key e, Value e]) (Reply_List r)) \<and>
     startKey \<notin> set (map Key (Reply_List r)) \<and>
     (\<forall>e \<in> set (Reply_List r).
        startKey < Key e \<and>
        (Bconcat [hashPrefix, StringToBytesNoCopy name, splitChar, Key e], Value e) \<in> set (kvs db)) \<and>
     sorted_wrt (<) (map Key (Reply_List r)) \<and>
     (0 < limit \<longrightarrow> length (Reply_List r) \<le> nat limit) \<and>
     (iter_fault db = None \<longrightarrow>
        Reply_List r =
          map (\<lambda>e. \<lparr>Key = drop (length (Bconcat [hashPrefix, StringToBytesNoCopy name, splitChar])) (fst e),
                     Value = snd e\<rparr>)
            (take_limit limit
               (filter (\<lambda>e. prefix (Bconcat [hashPrefix, StringToBytesNoCopy name, splitChar]) (fst e) \<and>
                            Bconcat [hashPrefix, StringToBytesNoCopy name, splitChar, startKey] < fst e)
                  (kvs db))))"
proof -
  let ?P = "hashPrefix @ StringToBytesNoCopy name @ splitChar"
  let ?F = "filter (\<lambda>e. prefix ?P (fst e) \<and> ?P @ startKey < fst e) (kvs db)"
  let ?f = "\<lambda>e :: bytes \<times> bytes. drop (length ?P) (fst e)"
  from Hscan_shape [of db name startKey limit] obtain r H where
    r: "Hscan db name startKey limit = Some r" and
    H: "reply_of_hits db limit ?F (\<lambda>e. [?f e, snd e]) H r"
    by blast
  have L: "Reply_List r = map (\<lambda>e. \<lparr>Key = ?f e, Value = snd e\<rparr>) H"
    using H by (rule reply_of_hits_List)
  have sub: "set H \<subseteq> set ?F"
    using H by (rule reply_of_hits_subset)
  have mem: "\<exists>m. fst e = ?P @ m \<and> startKey < m \<and> ?f e = m \<and> e \<in> set (kvs db)" if "e \<in> set H" for e
  proof -
    from that sub have e: "e \<in> set (kvs db)" and p: "prefix ?P (fst e)" and l: "?P @ startKey < fst e"
      by auto
    from p obtain m where m: "fst e = ?P @ m" by (auto simp add: prefix_def)
    with l have "startKey < m" using append_less_append [of ?P startKey m] by simp
    with m e show ?thesis by simp
  qed
  have 1: "Data r = concat (map (\<lambda>e. [Key e, Value e]) (Reply_List r))"
    using H by (rule reply_of_hits_Data)
  have 2: "\<forall>e \<in> set (Reply_List r). startKey < Key e \<and>
        (Bconcat [hashPrefix, StringToBytesNoCopy name, splitChar, Key e], Value e) \<in> set (kvs db)"
  proof
    fix x
    assume "x \<in> set (Reply_List r)"
    then obtain e where e: "e \<in> set H" and x: "x = \<lparr>Key = ?f e, Value = snd e\<rparr>"
      unfolding L by auto
    from mem [OF e] obtain m where "fst e = ?P @ m" "startKey < m" "?f e = m" "e \<in> set (kvs db)"
      by blast
    then show "startKey < Key x \<and>
        (Bconcat [hashPrefix, StringToBytesNoCopy name, splitChar, Key x], Value x) \<in> set (kvs db)"
      unfolding x by (cases e) (simp add: Bconcat_def)
  qed
  then have 3: "startKey \<notin> set (map Key (Reply_List r))"
    by auto
  have "sorted_wrt (<) (map fst H)"
    using assms H by (rule sorted_hits)
  moreover have "\<forall>e \<in> set H. prefix ?P (fst e)"
    using sub by auto
  ultimately have "sorted_wrt (<) (map ?f H)"
    by (rule sorted_members)
  then have 4: "sorted_wrt (<) (map Key (Reply_List r))"
    unfolding L by (simp add: comp_def)
  have 5: "0 < limit \<longrightarrow> length (Reply_List r) \<le> nat limit"
    unfolding L using reply_of_hits_length [OF H] by simp
  have 6: "iter_fault db = None \<longrightarrow> Reply_List r = map (\<lambda>e. \<lparr>Key = ?f e, Value = snd e\<rparr>) (take_limit limit ?F)"
    unfolding L using reply_of_hits_exact [OF H] by simp
  from r 1 2 3 4 5 6 show ?thesis
    by (simp add: Bconcat_def)
qed

lemmas scan_eval =
  Let_def Bconcat_def hashPrefix_def zetKeyPrefix_def zetScorePrefix_def splitChar_def
  StringToBytesNoCopy_def BytesPrefix_def NewIterator_def in_range_def iter_First_Next_def
  iter_Last_Prev_def store_of_def scan_reply_def iter_Error_def slice_from_def bytes_Compare_def
  Reply_List_def

theorem Hscan_after_start_ascending_witness:
  "ordered_store (store_of [([30, 104, 28, 97], [2]), ([30, 104, 28, 97, 98], [1]), ([30, 104, 28, 99], [3])]) \<and>
   (\<exists>r. Hscan (store_of [([30, 104, 28, 97], [2]), ([30, 104, 28, 97, 98], [1]), ([30, 104, 28, 99], [3])])
          ''h'' [97] 1 = Some r \<and>
        Reply_List r = [\<lparr>Key = [97, 98], Value = [1]\<rparr>])"
proof -
  have o: "ordered_store (store_of [([30, 104, 28, 97], [2]), ([30, 104, 28, 97, 98], [1]), ([30, 104, 28, 99], [3])])"
    by (simp add: ordered_store_def store_of_def)
  from Hscan_after_start_ascending [OF o, of "''h''" "[97]" 1] o show ?thesis
    by (auto simp add: store_of_def Bconcat_def hashPrefix_def splitChar_def StringToBytesNoCopy_def take_limit_def)
qed

text \<open>
  Claim C5 as stated fails for a limit of 0: the count never equals it, and both entries of
  the bucket are listed.
\<close>

theorem Hscan_limit_zero_counterexample:
  "Hscan (store_of [([30, 104, 28, 97], [2]), ([30, 104, 28, 99], [3])]) ''h'' [] 0 =
     Some \<lparr>State = ''ok'', Data = [[97], [2], [99], [3]]\<rparr> \<and>
   \<not> int (length (Reply_List \<lparr>State = ''ok'', Data = [[97], [2], [99], [3]]\<rparr>)) \<le> 0"
  by (simp add: Hscan_def scan_eval replyOK_def)

section \<open>Prefix scan of a hashmap\<close>





text \<open>
  Claim C3, at a failing input.  The bucket \<open>h\<close> holds the member \<open>ab\<close> with value 1 and the
  member \<open>b\<close> with value 2.  \<^verbatim>\<open>Hprefix\<close> for the member prefix \<open>a\<close> lists one pair, the key
  \<open>b\<close> with value 1: the key is the member \<open>ab\<close> cut after the bucket encoding and the member
  prefix, it does not begin with the prefix, and it names another stored member, whose value
  is 2.  \<^verbatim>\<open>Hscan\<close> from \<open>a\<close> on the same store lists the member \<open>ab\<close> whole.
\<close>

theorem Hprefix_drops_member_prefix:
  "Hprefix (store_of [([30, 104, 28, 97, 98], [1]), ([30, 104, 28, 98], [2])]) ''h'' [97] 10 =
     Some \<lparr>State = ''ok'', Data = [[98], [1]]\<rparr> \<and>
   map Key (Reply_List \<lparr>State = ''ok'', Data = [[98], [1]]\<rparr>) = [[98]] \<and>
   \<not> prefix [97 :: byte] [98] \<and>
   Hget (store_of [([30, 104, 28, 97, 98], [1]), ([30, 104, 28, 98], [2])]) ''h'' [97, 98] =
     \<lparr>State = ''ok'', Data = [[1]]\<rparr> \<and>
   Hget (store_of [([30, 104, 28, 97, 98], [1]), ([30, 104, 28, 98], [2])]) ''h'' [98] =
     \<lparr>State = ''ok'', Data = [[2]]\<rparr> \<and>
   Hscan (store_of [([30, 104, 28, 97, 98], [1]), ([30, 104, 28, 98], [2])]) ''h'' [97] 10 =
     Some \<lparr>State = ''ok'', Data = [[97, 98], [1], [98], [2]]\<rparr>"
  by (simp add: Hprefix_def Hscan_def Hget_def Get_def scan_eval replyOK_def)

section \<open>Reverse scan of a hashmap\<close>

lemma Hrscan_shape:
  "\<exists>r H. Hrscan db name keyStart limit = Some r \<and>
     reply_of_hits db limit
       (rev (filter (\<lambda>e. prefix (hashPrefix @ StringToBytesNoCopy name @ splitChar) (fst e) \<and>
                    (keyStart \<noteq> [] \<longrightarrow>
                       fst e < (hashPrefix @ StringToBytesNoCopy name @ splitChar) @ keyStart))
               (kvs db)))
       (\<lambda>e. [drop (length (hashPrefix @ StringToBytesNoCopy name @ splitChar)) (fst e), snd e]) H r"
proof -
  let ?P = "hashPrefix @ StringToBytesNoCopy name @ splitChar"
  have "Hrscan db name keyStart limit =
     map_option (scan_reply (NewIterator db (if length (?P @ keyStart) > length ?P then (BytesPrefix ?P)\<lparr>Limit := Some (?P @ keyStart)\<rparr> else BytesPrefix ?P)))
       (scan_loop (\<lambda>k. True)
          (\<lambda>k v. map_option (\<lambda>m. [m, v]) (slice_from k (length ?P)))
          limit (iter_Last_Prev (NewIterator db (if length (?P @ keyStart) > length ?P then (BytesPrefix ?P)\<lparr>Limit := Some (?P @ keyStart)\<rparr> else BytesPrefix ?P))) 0 [])"
    unfolding Hrscan_def Let_def Bconcat_def concat.simps append_Nil2
    by (simp only: append_assoc)
  then show ?thesis
    using backward_prefix_scan [of db ?P keyStart limit] by simp
qed

text \<open>
  Claim C9.  On a store kept in key order and for a start key that is not empty, \<^verbatim>\<open>Hrscan\<close>
  always replies; every listed member is strictly less than \<open>startKey\<close>, so \<open>startKey\<close> itself
  is never listed; the members are strictly descending; each is a member of the bucket with
  its stored value.  The loop compares nothing: the bound is the exclusive limit of the
  range, and when the iterator does not fail the pairs are exactly the last entries of the
  bucket below \<open>startKey\<close>, from the greatest down.
\<close>

theorem Hrscan_start_exclusive:
  assumes "ordered_store db" and "startKey \<noteq> []"
  shows "\<exists>r. Hrscan db name startKey limit = Some r \<and>
     Data r = concat (map (\<lambda>e. [Key e, Value e]) (Reply_List r)) \<and>
     startKey \<notin> set (map Key (Reply_List r)) \<and>
     (\<forall>e \<in> set (Reply_List r).
        Key e < startKey \<and>
        (Bconcat [hashPrefix, StringToBytesNoCopy name, splitChar, Key e], Value e) \<in> set (kvs db)) \<and>
     sorted_wrt (>) (map Key (Reply_List r)) \<and>
     (iter_fault db = None \<longrightarrow>
        Reply_List r =
          map (\<lambda>e. \<lparr>Key = drop (length (Bconcat [hashPrefix, StringToBytesNoCopy name, splitChar])) (fst e),
                     Value = snd e\<rparr>)
            (take_limit limit
               (rev (filter (\<lambda>e. prefix (Bconcat [hashPrefix, StringToBytesNoCopy name, splitChar]) (fst e) \<and>
                            fst e < Bconcat [hashPrefix, StringToBytesNoCopy name, splitChar, startKey])
                  (kvs db)))))"
proof -
  let ?P = "hashPrefix @ StringToBytesNoCopy name @ splitChar"
  let ?C = "\<lambda>e :: bytes \<times> bytes. prefix ?P (fst e) \<and> (startKey \<noteq> [] \<longrightarrow> fst e < ?P @ startKey)"
  let ?C' = "\<lambda>e :: bytes \<times> bytes. prefix ?P (fst e) \<and> fst e < ?P @ startKey"
  let ?f = "\<lambda>e :: bytes \<times> bytes. drop (length ?P) (fst e)"
  from Hrscan_shape [of db name startKey limit] obtain r H where
    r: "Hrscan db name startKey limit = Some r" and
    H: "reply_of_hits db limit (rev (filter ?C (kvs db))) (\<lambda>e. [?f e, snd e]) H r"
    by blast
  have C: "filter ?C (kvs db) = filter ?C' (kvs db)"
    using assms(2) by simp
  have L: "Reply_List r = map (\<lambda>e. \<lparr>Key = ?f e, Value = snd e\<rparr>) H"
    using H by (rule reply_of_hits_List)
  have sub: "set H \<subseteq> set (filter ?C' (kvs db))"
    using reply_of_hits_subset [OF H] assms(2) by auto
  have mem: "\<exists>m. fst e = ?P @ m \<and> m < startKey \<and> ?f e = m \<and> e \<in> set (kvs db)" if "e \<in> set H" for e
  proof -
    from that sub have e: "e \<in> set (kvs db)" and p: "prefix ?P (fst e)" and l: "fst e < ?P @ startKey"
      by auto
    from p obtain m where m: "fst e = ?P @ m" by (auto simp add: prefix_def)
    with l have "m < startKey" using append_less_append [of ?P m startKey] by simp
    with m e show ?thesis by simp
  qed
  have 1: "Data r = concat (map (\<lambda>e. [Key e, Value e]) (Reply_List r))"
    using H by (rule reply_of_hits_Data)
  have 2: "\<forall>e \<in> set (Reply_List r). Key e < startKey \<and>
        (Bconcat [hashPrefix, StringToBytesNoCopy name, splitChar, Key e], Value e) \<in> set (kvs db)"
  proof
    fix x
    assume "x \<in> set (Reply_List r)"
    then obtain e where e: "e \<in> set H" and x: "x = \<lparr>Key = ?f e, Value = snd e\<rparr>"
      unfolding L by auto
    from mem [OF e] obtain m where "fst e = ?P @ m" "m < startKey" "?f e = m" "e \<in> set (kvs db)"
      by blast
    then show "Key x < startKey \<and>
        (Bconcat [hashPrefix, StringToBytesNoCopy name, splitChar, Key x], Value x) \<in> set (kvs db)"
      unfolding x by (cases e) (simp add: Bconcat_def)
  qed
  then have 3: "startKey \<notin> set (map Key (Reply_List r))"
    by auto
  have "sorted_wrt (>) (map fst H)"
    using assms(1) H by (rule sorted_hits_rev)
  moreover have "\<forall>e \<in> set H. prefix ?P (fst e)"
    using sub by auto
  ultimately have "sorted_wrt (>) (map ?f H)"
    by (rule sorted_members_rev)
  then have 4: "sorted_wrt (>) (map Key (Reply_List r))"
    unfolding L by (simp add: comp_def)
  have 6: "iter_fault db = None \<longrightarrow>
      Reply_List r = map (\<lambda>e. \<lparr>Key = ?f e, Value = snd e\<rparr>) (take_limit limit (rev (filter ?C' (kvs db))))"
    unfolding L using reply_of_hits_exact [OF H] C by simp
  from r 1 2 3 4 6 show ?thesis
    by (simp add: Bconcat_def)
qed

theorem Hrscan_start_exclusive_witness:
  "ordered_store (store_of [([30, 104, 28, 97], [2]), ([30, 104, 28, 97, 98], [1]), ([30, 104, 28, 99], [3])]) \<and>
   [97, 98] \<noteq> ([] :: bytes) \<and>
   (\<exists>r. Hrscan (store_of [([30, 104, 28, 97], [2]), ([30, 104, 28, 97, 98], [1]), ([30, 104, 28, 99], [3])])
          ''h'' [97, 98] 5 = Some r \<and>
        Reply_List r = [\<lparr>Key = [97], Value = [2]\<rparr>])"
proof -
  have o: "ordered_store (store_of [([30, 104, 28, 97], [2]), ([30, 104, 28, 97, 98], [1]), ([30, 104, 28, 99], [3])])"
    by (simp add: ordered_store_def store_of_def)
  have n: "[97, 98] \<noteq> ([] :: bytes)"
    by simp
  from Hrscan_start_exclusive [OF o n, of "''h''" 5] o show ?thesis
    by (auto simp add: store_of_def Bconcat_def hashPrefix_def splitChar_def StringToBytesNoCopy_def
        take_limit_def)
qed

section \<open>The replies of the scans and of the multi-gets\<close>













end
